theory Spec2Isabelle
  imports Main "HOL-Library.Char_ord" "HOL-Library.List_Lexorder" "HOL-Library.Sublist"
    "HOL-Library.Word"
begin

section \<open>Data model\<close>

text \<open>
  A Go \<^verbatim>\<open>string\<close> is a sequence of bytes, compared byte-wise by \<^verbatim>\<open><\<close>; it
  is modelled as \<^typ>\<open>string\<close> with the order of \<open>Char_ord\<close> (by byte value) lifted to
  lists by \<open>List_Lexorder\<close> (first differing byte decides, a proper prefix is smaller).

  \<^verbatim>\<open>type Policies [][]string\<close>: a list of tuples. Every stored tuple is a non-nil
  slice whose capacity is its length (a composite literal in \<^verbatim>\<open>LoadPolicies\<close>, a
  \<^verbatim>\<open>make\<close> in \<^verbatim>\<open>Insert\<close>), so it is a \<^typ>\<open>string list\<close>. A \<^verbatim>\<open>[]string\<close>
  argument may be the nil slice, which \<^verbatim>\<open>stringSliceEqual\<close> tells apart from an
  empty one: it is a \<^typ>\<open>string list option\<close>, with \<open>None\<close> for nil. A result of
  type \<^verbatim>\<open>Policies\<close> is only ever measured with \<^verbatim>\<open>len\<close> and ranged over, so nil
  and empty results are both \<open>[]\<close>.

  Every run-time panic of the source is a value of \<open>error\<close>.
\<close>

type_synonym Policies = "string list list"

datatype error =
    IndexOutOfRange
  | SliceBoundsOutOfRange
  | MakeSliceLenOutOfRange
  | EmptyValuePanic string "string list"

definition andThen :: "error + 'a \<Rightarrow> ('a \<Rightarrow> error + 'b) \<Rightarrow> error + 'b" where
  "andThen r f = (case r of Inl e \<Rightarrow> Inl e | Inr v \<Rightarrow> f v)"

text \<open>\<^verbatim>\<open>xs[i]\<close> for a natural index.\<close>

definition idx :: "'a list \<Rightarrow> nat \<Rightarrow> error + 'a" where
  "idx xs i = (if i < length xs then Inr (xs ! i) else Inl IndexOutOfRange)"

text \<open>\<^verbatim>\<open>xs[:n]\<close> on a slice whose capacity is its length.\<close>

definition slice_to :: "'a list \<Rightarrow> nat \<Rightarrow> error + 'a list" where
  "slice_to xs n = (if n \<le> length xs then Inr (take n xs) else Inl SliceBoundsOutOfRange)"

text \<open>The elements of a possibly nil slice: \<^verbatim>\<open>len(nil) = 0\<close>.\<close>

fun elems :: "string list option \<Rightarrow> string list" where
  "elems None = []"
| "elems (Some xs) = xs"

section \<open>The standard library's binary search\<close>

text \<open>
  \<^verbatim>\<open>sort.Search(n, f)\<close> of the Go standard library:
  \<^verbatim>\<open>
  i, j := 0, n
  for i < j {
      h := int(uint(i+j) >> 1)
      if !f(h) { i = h + 1 } else { j = h }
  }
  return i
  \<close>
  The predicate may panic, which ends the search. Lengths of slices are far below the
  range of \<^verbatim>\<open>uint\<close>, so the midpoint is \<open>(i + j) div 2\<close>.
\<close>

function Search_loop :: "(nat \<Rightarrow> error + bool) \<Rightarrow> nat \<Rightarrow> nat \<Rightarrow> error + nat" where
  "Search_loop f i j =
     (if i < j then
        (case f ((i + j) div 2) of
           Inl e \<Rightarrow> Inl e
         | Inr b \<Rightarrow> if \<not> b then Search_loop f ((i + j) div 2 + 1) j
                    else Search_loop f i ((i + j) div 2))
      else Inr i)"
  by pat_completeness auto
termination
  by (relation "measure (\<lambda>(f, i, j). j - i)") auto

definition Search :: "nat \<Rightarrow> (nat \<Rightarrow> error + bool) \<Rightarrow> error + nat" where
  "Search n f = Search_loop f 0 n"

section \<open>Policies: the sorted rule set\<close>

text \<open>
  \<^verbatim>\<open>Less(i, j)\<close>: \<^verbatim>\<open>n := len(p[i])\<close>, then for \<open>k < n\<close> compare \<^verbatim>\<open>p[i][k]\<close> with
  \<^verbatim>\<open>p[j][k]\<close>. The loop walks \<^verbatim>\<open>p[i]\<close>; \<^verbatim>\<open>p[j]\<close> and \<^verbatim>\<open>p[j][k]\<close> are read in
  each iteration and may be out of range. Indices are Go ints; the sort only passes
  indices from \<open>0\<close>, so they are naturals here.
\<close>

fun Less_loop :: "Policies \<Rightarrow> nat \<Rightarrow> string list \<Rightarrow> nat \<Rightarrow> error + bool" where
  "Less_loop p j [] k = Inr False"
| "Less_loop p j (a # as) k =
     andThen (idx p j) (\<lambda>pj. andThen (idx pj k) (\<lambda>b.
       if a < b then Inr True
       else if a > b then Inr False
       else Less_loop p j as (k + 1)))"

definition Less :: "Policies \<Rightarrow> nat \<Rightarrow> nat \<Rightarrow> error + bool" where
  "Less p i j = andThen (idx p i) (\<lambda>pi. Less_loop p j pi 0)"

definition Swap :: "Policies \<Rightarrow> nat \<Rightarrow> nat \<Rightarrow> error + Policies" where
  "Swap p i j =
     (if i < length p \<and> j < length p then Inr (p[i := p ! j, j := p ! i])
      else Inl IndexOutOfRange)"

text \<open>
  The predicate of \<^verbatim>\<open>search\<close>: for \<open>k < len(rule)\<close> compare \<^verbatim>\<open>p[i][k]\<close> with
  \<^verbatim>\<open>rule[k]\<close>; the loop walks \<^verbatim>\<open>rule\<close>, and \<^verbatim>\<open>p[i][k]\<close> may be out of range.
\<close>

fun search_cmp :: "string list \<Rightarrow> nat \<Rightarrow> string list \<Rightarrow> error + bool" where
  "search_cmp row k [] = Inr True"
| "search_cmp row k (s # rest) =
     andThen (idx row k) (\<lambda>v.
       if v > s then Inr True
       else if v < s then Inr False
       else search_cmp row (k + 1) rest)"

definition search :: "Policies \<Rightarrow> string list \<Rightarrow> error + nat" where
  "search p rule =
     Search (length p) (\<lambda>i. andThen (idx p i) (\<lambda>row. search_cmp row 0 rule))"

text \<open>
  \<^verbatim>\<open>stringSliceEqual\<close>: two nil slices are equal, a nil and a non-nil one are not,
  slices of different lengths are not; otherwise \<^verbatim>\<open>for i, s := range a\<close> compares
  \<^verbatim>\<open>b[i]\<close> with \<open>s\<close>, where \<open>i\<close> is in range of \<open>b\<close> because the lengths agree.
\<close>

fun eq_loop :: "string list \<Rightarrow> string list \<Rightarrow> nat \<Rightarrow> bool" where
  "eq_loop [] b i = True"
| "eq_loop (s # a) b i = (if b ! i \<noteq> s then False else eq_loop a b (i + 1))"

fun stringSliceEqual :: "string list option \<Rightarrow> string list option \<Rightarrow> bool" where
  "stringSliceEqual None None = True"
| "stringSliceEqual None (Some b) = False"
| "stringSliceEqual (Some a) None = False"
| "stringSliceEqual (Some a) (Some b) =
     (if length a \<noteq> length b then False else eq_loop a b 0)"

text \<open>
  \<^verbatim>\<open>Insert\<close>: the copy \<^verbatim>\<open>sl\<close> of the rule is a fresh non-nil slice.
  \<^verbatim>\<open>append(p[:i+1], p[i:]...)\<close> yields the first \<open>i + 1\<close> tuples followed by
  the tuples from \<open>i\<close> on (the library copies overlapping ranges correctly), and
  \<^verbatim>\<open>p[i] = sl\<close> then overwrites position \<open>i\<close>.
\<close>

definition Insert :: "Policies \<Rightarrow> string list option \<Rightarrow> error + Policies" where
  "Insert p rule =
     andThen (search p (elems rule)) (\<lambda>i.
       if i < length p \<and> stringSliceEqual (Some (p ! i)) rule then Inr p
       else
         let sl = elems rule in
         if i \<ge> length p then Inr (p @ [sl])
         else Inr ((take (i + 1) p @ drop i p)[i := sl]))"

definition Remove :: "Policies \<Rightarrow> string list option \<Rightarrow> error + Policies" where
  "Remove p rule =
     andThen (search p (elems rule)) (\<lambda>i.
       if i < length p \<and> stringSliceEqual (Some (p ! i)) rule
       then Inr (take i p @ drop (i + 1) p)
       else Inr p)"

text \<open>\<^verbatim>\<open>Find\<close> returns the stored tuple, or nil (\<open>None\<close>).\<close>

definition Find :: "Policies \<Rightarrow> string list option \<Rightarrow> error + string list option" where
  "Find p rule =
     andThen (search p (elems rule)) (\<lambda>i.
       if i < length p then
         andThen (slice_to (p ! i) (length (elems rule))) (\<lambda>pre.
           if stringSliceEqual (Some pre) rule then Inr (Some (p ! i)) else Inr None)
       else Inr None)"

text \<open>
  \<^verbatim>\<open>Filter(rule ...string)\<close>. The first loop ranges over the pattern with the
  variables \<open>j\<close> and \<open>s\<close> declared outside it, so after the loop \<open>j\<close> holds the last
  position visited: the position of the first empty string (where the loop breaks), the
  last position when there is none, and \<open>0\<close> for an empty pattern. For a non-empty
  \<open>s\<close> the active slice is cut by two binary searches on column \<open>j\<close>.
\<close>

definition col_ge :: "Policies \<Rightarrow> nat \<Rightarrow> string \<Rightarrow> nat \<Rightarrow> error + bool" where
  "col_ge p j s i = andThen (idx p i) (\<lambda>row. andThen (idx row j) (\<lambda>v. Inr (v \<ge> s)))"

definition col_gt :: "Policies \<Rightarrow> nat \<Rightarrow> string \<Rightarrow> nat \<Rightarrow> error + bool" where
  "col_gt p j s i = andThen (idx p i) (\<lambda>row. andThen (idx row j) (\<lambda>v. Inr (v > s)))"

fun narrow :: "Policies \<Rightarrow> nat \<Rightarrow> nat \<Rightarrow> string list \<Rightarrow> error + (Policies \<times> nat)" where
  "narrow p j pos [] = Inr (p, j)"
| "narrow p j pos (s # rest) =
     (if s = '''' then Inr (p, pos)
      else
        andThen (Search (length p) (col_ge p pos s)) (\<lambda>start.
          andThen (Search (length (drop start p)) (col_gt (drop start p) pos s)) (\<lambda>end.
            narrow (take end (drop start p)) pos (pos + 1) rest)))"

text \<open>
  The second part marks in \<^verbatim>\<open>excluded\<close> every tuple that disagrees with a non-empty
  pattern position \<open>k > j\<close>. \<^verbatim>\<open>excluded[i] == 0 && p[i][k] != s\<close> reads \<^verbatim>\<open>p[i][k]\<close>
  only for a tuple not yet excluded. The counter \<open>n\<close> only sizes the capacity of the
  result and is left out.
\<close>

fun mark :: "nat \<Rightarrow> string \<Rightarrow> Policies \<Rightarrow> nat list \<Rightarrow> error + nat list" where
  "mark k s (row # rows) (e # es) =
     (if e = 0 then
        andThen (idx row k) (\<lambda>v.
          andThen (mark k s rows es) (\<lambda>es'. Inr ((if v \<noteq> s then 1 else 0) # es')))
      else andThen (mark k s rows es) (\<lambda>es'. Inr (e # es')))"
| "mark k s rows es = Inr es"

fun brute :: "nat \<Rightarrow> string list \<Rightarrow> Policies \<Rightarrow> nat list \<Rightarrow> error + nat list" where
  "brute k [] p excluded = Inr excluded"
| "brute k (s # rest) p excluded =
     (if s = '''' then brute (k + 1) rest p excluded
      else andThen (mark k s p excluded) (\<lambda>excluded'. brute (k + 1) rest p excluded'))"

definition collect :: "Policies \<Rightarrow> nat list \<Rightarrow> Policies" where
  "collect p excluded = map fst (filter (\<lambda>(row, v). v = 0) (zip p excluded))"

definition Filter :: "Policies \<Rightarrow> string list \<Rightarrow> error + Policies" where
  "Filter p rule =
     andThen (narrow p 0 0 rule) (\<lambda>(p', j).
       if length p' = 0 then Inr []
       else
         andThen (brute (j + 1) (drop (j + 1) rule) p' (replicate (length p') 0))
           (\<lambda>excluded. Inr (collect p' excluded)))"

section \<open>The standard library's sort on short inputs\<close>

text \<open>
  \<^verbatim>\<open>sort.Sort(data)\<close> of the Go standard library sorts a range of at most twelve
  elements by its \<^verbatim>\<open>insertionSort(data, 0, n)\<close>, through the \<^verbatim>\<open>Less\<close> and
  \<^verbatim>\<open>Swap\<close> of \<^verbatim>\<open>Policies\<close>:
  \<^verbatim>\<open>
  for i := a + 1; i < b; i++ {
      for j := i; j > a && data.Less(j, j-1); j-- { data.Swap(j, j-1) }
  }
  \<close>
  \<open>Sort\<close> below is this path; it is only run on the six tuples of the test suite.
\<close>

function insertionSort_inner :: "Policies \<Rightarrow> nat \<Rightarrow> nat \<Rightarrow> error + Policies" where
  "insertionSort_inner p a j =
     (if j > a then
        andThen (Less p j (j - 1)) (\<lambda>lt.
          if lt then andThen (Swap p j (j - 1)) (\<lambda>p'. insertionSort_inner p' a (j - 1))
          else Inr p)
      else Inr p)"
  by pat_completeness auto
termination
  by (relation "measure (\<lambda>(p, a, j). j)") auto

function insertionSort_outer :: "Policies \<Rightarrow> nat \<Rightarrow> nat \<Rightarrow> nat \<Rightarrow> error + Policies" where
  "insertionSort_outer p a b i =
     (if i < b then andThen (insertionSort_inner p a i) (\<lambda>p'. insertionSort_outer p' a b (i + 1))
      else Inr p)"
  by pat_completeness auto
termination
  by (relation "measure (\<lambda>(p, a, b, i). b - i)") auto

definition insertionSort :: "Policies \<Rightarrow> nat \<Rightarrow> nat \<Rightarrow> error + Policies" where
  "insertionSort p a b = insertionSort_outer p a b (a + 1)"

definition Sort :: "Policies \<Rightarrow> error + Policies" where
  "Sort p = insertionSort p 0 (length p)"

section \<open>Manager: the cache and the matcher\<close>

text \<open>
  Of \<^verbatim>\<open>Manager\<close> the fields \<^verbatim>\<open>p\<close> and \<^verbatim>\<open>g\<close> hold the cache; the matcher is passed
  to \<^verbatim>\<open>Enforce\<close> explicitly. The mutex, the connections and the timers play no part
  in what the operations below compute.
\<close>

record Manager =
  m_p :: Policies
  m_g :: Policies

definition FindExact :: "Manager \<Rightarrow> string list option \<Rightarrow> error + string list option" where
  "FindExact m rule = Find (m_p m) rule"

definition FilterGroups :: "Manager \<Rightarrow> string list \<Rightarrow> error + Policies" where
  "FilterGroups m rule = Filter (m_g m) rule"

text \<open>\<^verbatim>\<open>xs[i]\<close> and \<^verbatim>\<open>xs[i] = v\<close> for an index of type \<^verbatim>\<open>int\<close>.\<close>

definition idx_int :: "'a list \<Rightarrow> int \<Rightarrow> error + 'a" where
  "idx_int xs i =
     (if 0 \<le> i \<and> i < int (length xs) then Inr (xs ! nat i) else Inl IndexOutOfRange)"

definition upd_int :: "'a list \<Rightarrow> int \<Rightarrow> 'a \<Rightarrow> error + 'a list" where
  "upd_int xs i v =
     (if 0 \<le> i \<and> i < int (length xs) then Inr (xs[nat i := v]) else Inl IndexOutOfRange)"

text \<open>
  \<^verbatim>\<open>FilterWithGroups\<close>: one \<^verbatim>\<open>filterSlice\<close> is made before the loop and its
  position \<^verbatim>\<open>policyValueIndex\<close> is overwritten for every group.
\<close>

fun FilterWithGroups_loop ::
  "Policies \<Rightarrow> int \<Rightarrow> int \<Rightarrow> Policies \<Rightarrow> string list \<Rightarrow> Policies \<Rightarrow> error + Policies" where
  "FilterWithGroups_loop P policyValueIndex groupValueIndex [] filterSlice result = Inr result"
| "FilterWithGroups_loop P policyValueIndex groupValueIndex (g # groups) filterSlice result =
     andThen (idx_int g groupValueIndex) (\<lambda>v.
       andThen (upd_int filterSlice policyValueIndex v) (\<lambda>filterSlice'.
         andThen (Filter P filterSlice') (\<lambda>found.
           FilterWithGroups_loop P policyValueIndex groupValueIndex groups filterSlice'
             (result @ found))))"

text \<open>
  \<^verbatim>\<open>make([]string, policyValueIndex+1)\<close>. An \<^verbatim>\<open>int\<close> has 64 bits, so the sum wraps
  around: \<open>wrap_int64\<close> is the value of a mathematical integer as a 64-bit two's
  complement number. \<^verbatim>\<open>make\<close> panics (\<^verbatim>\<open>makeslice: len out of range\<close>) when the
  length is negative or when that many strings, of 16 bytes each, exceed the \<open>2^48\<close> bytes
  the runtime allocates at most on a 64-bit platform, that is beyond \<open>2^44\<close> strings.
  Within the bound the slice is made, as every other allocation of the source is taken to
  succeed: running out of memory ends the process and is no panic.
\<close>

definition wrap_int64 :: "int \<Rightarrow> int" where
  "wrap_int64 x = (x + 2 ^ 63) mod 2 ^ 64 - 2 ^ 63"

definition max_string_slice :: int where
  "max_string_slice = 2 ^ 44"

definition make_strings :: "int \<Rightarrow> error + string list" where
  "make_strings n =
     (if n < 0 \<or> max_string_slice < n then Inl MakeSliceLenOutOfRange
      else Inr (replicate (nat n) ''''))"

definition FilterWithGroups :: "Manager \<Rightarrow> int \<Rightarrow> Policies \<Rightarrow> int \<Rightarrow> error + Policies" where
  "FilterWithGroups m policyValueIndex groups groupValueIndex =
     (if length groups = 0 then Inr []
      else
        andThen (make_strings (wrap_int64 (policyValueIndex + 1))) (\<lambda>filterSlice.
          FilterWithGroups_loop (m_p m) policyValueIndex groupValueIndex groups filterSlice []))"

definition RBACWithDomain :: "Manager \<Rightarrow> string list \<Rightarrow> error + bool" where
  "RBACWithDomain m request =
     andThen (idx request 0) (\<lambda>sub. andThen (idx request 1) (\<lambda>dom.
     andThen (idx request 2) (\<lambda>obj. andThen (idx request 3) (\<lambda>act.
       andThen (FindExact m (Some [sub, dom, obj, act])) (\<lambda>found.
         if found \<noteq> None then Inr True
         else
           andThen (FilterGroups m [sub, '''', dom]) (\<lambda>groups.
             andThen (FilterWithGroups m 0 groups 1) (\<lambda>policies.
               if length policies = 0 then Inr False
               else
                 andThen (Filter policies ['''', dom, obj, act]) (\<lambda>policies'.
                   Inr (length policies' > 0)))))))))"

definition Enforce ::
  "(Manager \<Rightarrow> string list \<Rightarrow> error + bool) \<Rightarrow> Manager \<Rightarrow> string list \<Rightarrow> error + bool" where
  "Enforce matcher m request = matcher m request"

section \<open>Manager: the write path\<close>

text \<open>
  \<^verbatim>\<open>policyID\<close>: \<open>end\<close> is the position of the first empty string, or the length.
  \<^verbatim>\<open>meow.Checksum\<close> belongs to another repository and is a parameter; \<^verbatim>\<open>%x\<close>
  prints a byte array as two lowercase hexadecimal digits per byte.
\<close>

fun policyID_loop :: "string list \<Rightarrow> nat \<Rightarrow> nat \<Rightarrow> nat" where
  "policyID_loop [] i end = end"
| "policyID_loop (s # rest) i end = (if s = '''' then i else policyID_loop rest (i + 1) end)"

fun Join :: "string list \<Rightarrow> string \<Rightarrow> string" where
  "Join [] sep = ''''"
| "Join [x] sep = x"
| "Join (x # y # ys) sep = x @ sep @ Join (y # ys) sep"

definition hexdigit :: "nat \<Rightarrow> char" where
  "hexdigit n = ''0123456789abcdef'' ! n"

definition hexbyte :: "8 word \<Rightarrow> string" where
  "hexbyte b = [hexdigit (unat b div 16), hexdigit (unat b mod 16)]"

definition Sprintf_x :: "8 word list \<Rightarrow> string" where
  "Sprintf_x bytes = concat (map hexbyte bytes)"

definition policyID :: "(nat \<Rightarrow> string \<Rightarrow> 8 word list) \<Rightarrow> string \<Rightarrow> string list \<Rightarrow> string" where
  "policyID Checksum ptype rule =
     (let end = policyID_loop rule 0 (length rule);
          data = Join (ptype # take end rule) '','';
          digest = Checksum 0 data
      in Sprintf_x digest)"

text \<open>
  \<^verbatim>\<open>policyArgs\<close> fills a row of eight \<^verbatim>\<open>interface{}\<close> slots (\<open>None\<close> is the nil
  interface) with \<^verbatim>\<open>pgtype.Text\<close> values and panics on an empty value.
\<close>

datatype Status = Undefined | Null | Present

datatype Text = Text string Status

function policyArgs_loop ::
  "string \<Rightarrow> string list \<Rightarrow> Text option list \<Rightarrow> nat \<Rightarrow> error + Text option list" where
  "policyArgs_loop ptype rule row i =
     (if i < 6 then
        (if i < length rule then
           (if rule ! i = '''' then Inl (EmptyValuePanic ptype rule)
            else policyArgs_loop ptype rule (row[2 + i := Some (Text (rule ! i) Present)]) (i + 1))
         else policyArgs_loop ptype rule (row[2 + i := Some (Text '''' Null)]) (i + 1))
      else Inr row)"
  by pat_completeness auto
termination
  by (relation "measure (\<lambda>(ptype, rule, row, i). 6 - i)") auto

definition policyArgs ::
  "(nat \<Rightarrow> string \<Rightarrow> 8 word list) \<Rightarrow> string \<Rightarrow> string list \<Rightarrow> error + Text option list" where
  "policyArgs Checksum ptype rule =
     (let row = replicate 8 None;
          row = row[0 := Some (Text (policyID Checksum ptype rule) Present)];
          row = row[1 := Some (Text ptype Present)]
      in policyArgs_loop ptype rule row 0)"

text \<open>
  \<^verbatim>\<open>AddPolicy\<close> evaluates \<^verbatim>\<open>policyArgs\<close> before it calls the pool, so a panic
  there means that nothing is issued. The storage is a parameter: \<open>exec\<close> stands for
  \<^verbatim>\<open>m.pool.Exec\<close> with the insert statement and returns whatever the storage answers.
  \<^verbatim>\<open>AddPolicies\<close> hands a closure to \<^verbatim>\<open>m.pool.BeginFunc\<close>, which runs it only
  once a transaction has begun: \<open>begin\<close> is \<open>Some err\<close> when the pool cannot begin one,
  and then \<^verbatim>\<open>BeginFunc\<close> returns \<open>err\<close> and \<^verbatim>\<open>policyArgs\<close> is never reached.
  Inside the transaction the closure queues the rows of the \<open>p\<close> rules, then those of
  the \<open>g\<close> rules, and sends the batch (\<open>send\<close> stands for \<^verbatim>\<open>tx.SendBatch\<close>, the
  \<^verbatim>\<open>br.Exec\<close> loop and \<^verbatim>\<open>br.Close\<close>, and returns what the storage answers); a
  panic of \<^verbatim>\<open>policyArgs\<close> there passes through \<^verbatim>\<open>BeginFunc\<close>.
\<close>

definition AddPolicy ::
  "(Text option list \<Rightarrow> 'r) \<Rightarrow> (nat \<Rightarrow> string \<Rightarrow> 8 word list) \<Rightarrow> string \<Rightarrow> string list
     \<Rightarrow> error + 'r" where
  "AddPolicy exec Checksum ptype rule =
     andThen (policyArgs Checksum ptype rule) (\<lambda>row. Inr (exec row))"

fun Queue_all ::
  "(nat \<Rightarrow> string \<Rightarrow> 8 word list) \<Rightarrow> string \<Rightarrow> string list list \<Rightarrow> Text option list list
     \<Rightarrow> error + Text option list list" where
  "Queue_all Checksum ptype [] b = Inr b"
| "Queue_all Checksum ptype (rule # rules) b =
     andThen (policyArgs Checksum ptype rule) (\<lambda>row. Queue_all Checksum ptype rules (b @ [row]))"

definition AddPolicies ::
  "'r option \<Rightarrow> (Text option list list \<Rightarrow> 'r) \<Rightarrow> (nat \<Rightarrow> string \<Rightarrow> 8 word list)
     \<Rightarrow> string list list \<Rightarrow> string list list \<Rightarrow> error + 'r" where
  "AddPolicies begin send Checksum pRules gRules =
     (case begin of
        Some err \<Rightarrow> Inr err
      | None \<Rightarrow>
          andThen (Queue_all Checksum ''p'' pRules []) (\<lambda>b.
            andThen (Queue_all Checksum ''g'' gRules b) (\<lambda>b'. Inr (send b'))))"

section \<open>Sequences of operations on a rule set\<close>

text \<open>
  The notification loop applies one \<^verbatim>\<open>Insert\<close> or \<^verbatim>\<open>Remove\<close> per event. A run
  of such operations on one rule set stops at the first panic. A rule of width \<open>w\<close> is
  a non-nil slice of \<open>w\<close> strings; a rule set of width \<open>w\<close> is sorted, free of
  duplicates and holds tuples of \<open>w\<close> strings.
\<close>

datatype operation = OpInsert "string list option" | OpRemove "string list option"

fun rule_of :: "operation \<Rightarrow> string list option" where
  "rule_of (OpInsert rule) = rule"
| "rule_of (OpRemove rule) = rule"

fun apply_op :: "Policies \<Rightarrow> operation \<Rightarrow> error + Policies" where
  "apply_op p (OpInsert rule) = Insert p rule"
| "apply_op p (OpRemove rule) = Remove p rule"

fun run_ops :: "Policies \<Rightarrow> operation list \<Rightarrow> error + Policies" where
  "run_ops p [] = Inr p"
| "run_ops p (x # xs) = andThen (apply_op p x) (\<lambda>p'. run_ops p' xs)"

definition is_rule :: "nat \<Rightarrow> string list option \<Rightarrow> bool" where
  "is_rule w rule = (case rule of None \<Rightarrow> False | Some r \<Rightarrow> length r = w)"

definition RuleSet :: "nat \<Rightarrow> Policies \<Rightarrow> bool" where
  "RuleSet w p = (sorted p \<and> distinct p \<and> (\<forall>row\<in>set p. length row = w))"

text \<open>
  A tuple matches a pattern when, position by position, the pattern is the empty string
  (the wildcard) or equal to the tuple; positions beyond the pattern are free.
\<close>

fun matches :: "string list \<Rightarrow> string list \<Rightarrow> bool" where
  "matches [] row = True"
| "matches (s # pat) [] = False"
| "matches (s # pat) (v # row) = ((s = '''' \<or> v = s) \<and> matches pat row)"

text \<open>
  The words of the specification about rules and rows: a rule with its trailing empty
  strings removed; a rule with an empty string before its last non-empty position; the
  digits of a lowercase hexadecimal print; the column a rule's position is written to and the row of a rule;
  and the decision of the reference matcher as the specification states it.
\<close>

definition strip_trailing :: "string list \<Rightarrow> string list" where
  "strip_trailing rule = rev (dropWhile (\<lambda>s. s = '''') (rev rule))"

definition lower_hex :: "char set" where
  "lower_hex = set ''0123456789abcdef''"

definition interior_empty :: "string list \<Rightarrow> bool" where
  "interior_empty rule = ('''' \<in> set (strip_trailing rule))"

definition column :: "string list \<Rightarrow> nat \<Rightarrow> Text option" where
  "column rule k = (if k < length rule then Some (Text (rule ! k) Present) else Some (Text '''' Null))"

definition row_of ::
  "(nat \<Rightarrow> string \<Rightarrow> 8 word list) \<Rightarrow> string \<Rightarrow> string list \<Rightarrow> Text option list" where
  "row_of Checksum ptype rule =
     [Some (Text (policyID Checksum ptype rule) Present), Some (Text ptype Present)]
     @ map (column rule) [0..<6]"

definition rbac_allows :: "Policies \<Rightarrow> Policies \<Rightarrow> string \<Rightarrow> string \<Rightarrow> string \<Rightarrow> string \<Rightarrow> bool" where
  "rbac_allows P G sub domain obj act =
     ((\<exists>p\<in>set P. take 4 p = [sub, domain, obj, act])
      \<or> (\<exists>g\<in>set G. \<exists>p\<in>set P. g ! 0 = sub \<and> g ! 2 = domain
            \<and> p ! 0 = g ! 1 \<and> p ! 1 = domain \<and> p ! 2 = obj \<and> p ! 3 = act))"

section \<open>Basic facts\<close>

lemma andThen_Inl [simp]: "andThen (Inl e) f = Inl e"
  by (simp add: andThen_def)

lemma andThen_Inr [simp]: "andThen (Inr v) f = f v"
  by (simp add: andThen_def)

lemma idx_Inr [simp]: "i < length xs \<Longrightarrow> idx xs i = Inr (xs ! i)"
  by (simp add: idx_def)

lemma idx_Inl [simp]: "\<not> i < length xs \<Longrightarrow> idx xs i = Inl IndexOutOfRange"
  by (simp add: idx_def)

lemma drop_nth_Cons: "k < length xs \<Longrightarrow> drop k xs = xs ! k # drop (Suc k) xs"
  by (simp add: Cons_nth_drop_Suc)

declare policyArgs_loop.simps [simp del]

section \<open>Binary search\<close>

declare Search_loop.simps [simp del]

lemma Search_loop_total:
  "\<forall>k. i \<le> k \<and> k < j \<longrightarrow> (\<exists>b. f k = Inr b) \<Longrightarrow>
   \<exists>r. Search_loop f i j = Inr r \<and> i \<le> r \<and> (i \<le> j \<longrightarrow> r \<le> j)"
proof (induction f i j rule: Search_loop.induct)
  case (1 f i j)
  show ?case
  proof (cases "i < j")
    case False
    then show ?thesis by (simp add: Search_loop.simps [of f i j])
  next
    case True
    let ?h = "(i + j) div 2"
    from True have h: "i \<le> ?h" "?h < j" by auto
    with "1.prems" obtain b where b: "f ?h = Inr b" by blast
    show ?thesis
    proof (cases b)
      case True
      have "\<exists>r. Search_loop f i ?h = Inr r \<and> i \<le> r \<and> (i \<le> ?h \<longrightarrow> r \<le> ?h)"
        using "1.IH"(2) [OF \<open>i < j\<close> b] True "1.prems" h by auto
      then show ?thesis
        using b True h \<open>i < j\<close> by (auto simp: Search_loop.simps [of f i j])
    next
      case False
      have "\<exists>r. Search_loop f (?h + 1) j = Inr r \<and> ?h + 1 \<le> r \<and> (?h + 1 \<le> j \<longrightarrow> r \<le> j)"
        using "1.IH"(1) [OF \<open>i < j\<close> b] False "1.prems" h by auto
      then show ?thesis
        using b False h \<open>i < j\<close> by (auto simp: Search_loop.simps [of f i j])
    qed
  qed
qed

lemma Search_loop_mono:
  "\<forall>k. i \<le> k \<and> k < j \<longrightarrow> f k = Inr (g k) \<Longrightarrow>
   \<forall>a b. a \<le> b \<and> b < n \<and> g a \<longrightarrow> g b \<Longrightarrow>
   i \<le> j \<Longrightarrow> j \<le> n \<Longrightarrow>
   \<forall>k<i. \<not> g k \<Longrightarrow> \<forall>k. j \<le> k \<and> k < n \<longrightarrow> g k \<Longrightarrow>
   \<exists>r. Search_loop f i j = Inr r \<and> r \<le> n \<and> (\<forall>k<r. \<not> g k) \<and> (\<forall>k. r \<le> k \<and> k < n \<longrightarrow> g k)"
proof (induction f i j rule: Search_loop.induct)
  case (1 f i j)
  show ?case
  proof (cases "i < j")
    case False
    then have "Search_loop f i j = Inr i" by (simp add: Search_loop.simps [of f i j])
    moreover from False "1.prems" have "i = j" by simp
    ultimately show ?thesis using "1.prems" by auto
  next
    case True
    let ?h = "(i + j) div 2"
    from True have h: "i \<le> ?h" "?h < j" by auto
    with "1.prems" have b: "f ?h = Inr (g ?h)" by blast
    show ?thesis
    proof (cases "g ?h")
      case True
      have up: "\<forall>k. ?h \<le> k \<and> k < n \<longrightarrow> g k"
        using "1.prems"(2) True by blast
      have "\<exists>r. Search_loop f i ?h = Inr r \<and> r \<le> n \<and> (\<forall>k<r. \<not> g k) \<and> (\<forall>k. r \<le> k \<and> k < n \<longrightarrow> g k)"
        using "1.IH"(2) [OF \<open>i < j\<close> b _ _ "1.prems"(2)] True "1.prems" h up by auto
      then show ?thesis
        using b True \<open>i < j\<close> by (simp add: Search_loop.simps [of f i j])
    next
      case False
      have lo: "\<forall>k<?h + 1. \<not> g k"
      proof (intro allI impI)
        fix k assume "k < ?h + 1"
        then have "k \<le> ?h" by simp
        moreover have "?h < n" using h "1.prems" by simp
        ultimately show "\<not> g k" using "1.prems"(2) False by blast
      qed
      have "\<exists>r. Search_loop f (?h + 1) j = Inr r \<and> r \<le> n \<and> (\<forall>k<r. \<not> g k) \<and> (\<forall>k. r \<le> k \<and> k < n \<longrightarrow> g k)"
        using "1.IH"(1) [OF \<open>i < j\<close> b _ _ "1.prems"(2)] False "1.prems" h lo by auto
      then show ?thesis
        using b False \<open>i < j\<close> by (simp add: Search_loop.simps [of f i j])
    qed
  qed
qed

lemma Search_total:
  "\<forall>k<n. \<exists>b. f k = Inr b \<Longrightarrow> \<exists>r\<le>n. Search n f = Inr r"
  using Search_loop_total [of 0 n f] by (auto simp: Search_def)

lemma Search_mono:
  assumes "\<forall>k<n. f k = Inr (g k)" and "\<forall>a b. a \<le> b \<and> b < n \<and> g a \<longrightarrow> g b"
  shows "\<exists>r\<le>n. Search n f = Inr r \<and> (\<forall>k<r. \<not> g k) \<and> (\<forall>k. r \<le> k \<and> k < n \<longrightarrow> g k)"
proof -
  have "\<exists>r. Search_loop f 0 n = Inr r \<and> r \<le> n \<and> (\<forall>k<r. \<not> g k) \<and> (\<forall>k. r \<le> k \<and> k < n \<longrightarrow> g k)"
    by (rule Search_loop_mono [of 0 n f g n]) (use assms in auto)
  then show ?thesis by (auto simp: Search_def)
qed

section \<open>The comparison loops and the lexicographic order\<close>

lemma search_cmp_eq:
  "k + length rule \<le> length row \<Longrightarrow>
   search_cmp row k rule = Inr (rule \<le> take (length rule) (drop k row))"
proof (induction rule arbitrary: k)
  case Nil
  then show ?case by simp
next
  case (Cons s rest)
  then have k: "k < length row" and rest: "Suc k + length rest \<le> length row" by auto
  have "search_cmp row (Suc k) rest = Inr (rest \<le> take (length rest) (drop (Suc k) row))"
    using Cons.IH [OF rest] .
  then show ?case using k by (auto simp: drop_nth_Cons [OF k])
qed

lemma eq_loop_eq:
  "i + length a \<le> length b \<Longrightarrow> eq_loop a b i = (a = take (length a) (drop i b))"
proof (induction a arbitrary: i)
  case Nil
  then show ?case by simp
next
  case (Cons s a)
  then have i: "i < length b" and rest: "Suc i + length a \<le> length b" by auto
  show ?case using Cons.IH [OF rest] by (auto simp: drop_nth_Cons [OF i])
qed

lemma stringSliceEqual_Some [simp]: "stringSliceEqual (Some a) (Some b) = (a = b)"
  using eq_loop_eq [of 0 a b] by auto

declare stringSliceEqual.simps(4) [simp del]

lemma Less_loop_eq:
  "j < length p \<Longrightarrow> k + length as \<le> length (p ! j) \<Longrightarrow>
   Less_loop p j as k = Inr (as < take (length as) (drop k (p ! j)))"
proof (induction as arbitrary: k)
  case Nil
  then show ?case by simp
next
  case (Cons a as)
  then have k: "k < length (p ! j)" and rest: "Suc k + length as \<le> length (p ! j)" by auto
  show ?case using Cons.IH [OF Cons.prems(1) rest] Cons.prems(1) k
    by (auto simp: drop_nth_Cons [OF k])
qed

lemma Less_eq:
  "i < length p \<Longrightarrow> j < length p \<Longrightarrow> length (p ! i) = length (p ! j) \<Longrightarrow>
   Less p i j = Inr (p ! i < p ! j)"
  using Less_loop_eq [of j p 0 "p ! i"] by (simp add: Less_def)

lemma take_le_mono: "(a :: 'a :: linorder list) \<le> b \<Longrightarrow> take n a \<le> take n b"
proof (induction n arbitrary: a b)
  case 0
  then show ?case by simp
next
  case (Suc n)
  show ?case
  proof (cases a)
    case Nil
    then show ?thesis by simp
  next
    case (Cons x xs)
    with Suc.prems obtain y ys where b: "b = y # ys" by (cases b) auto
    with Cons Suc.prems Suc.IH [of xs ys] show ?thesis by auto
  qed
qed

lemma nth_le_of_common_prefix:
  "take k a = take k b \<Longrightarrow> k < length a \<Longrightarrow> k < length b \<Longrightarrow> (a :: 'a :: linorder list) \<le> b \<Longrightarrow>
   a ! k \<le> b ! k"
proof (induction k arbitrary: a b)
  case 0
  then show ?case by (cases a; cases b) auto
next
  case (Suc k)
  then show ?case by (cases a; cases b) auto
qed

section \<open>Search, insertion, removal and lookup on a sorted rule set\<close>

lemma search_total:
  assumes "\<forall>row\<in>set p. length rule \<le> length row"
  shows "\<exists>i\<le>length p. search p rule = Inr i"
  unfolding search_def
proof (rule Search_total, intro allI impI)
  fix k assume "k < length p"
  then show "\<exists>b. andThen (idx p k) (\<lambda>row. search_cmp row 0 rule) = Inr b"
    using assms search_cmp_eq [of 0 rule "p ! k"] by simp
qed

lemma search_sorted:
  assumes "sorted p" and "\<forall>row\<in>set p. length rule \<le> length row"
  shows "\<exists>i\<le>length p. search p rule = Inr i
           \<and> (\<forall>k<i. take (length rule) (p ! k) < rule)
           \<and> (\<forall>k. i \<le> k \<and> k < length p \<longrightarrow> rule \<le> take (length rule) (p ! k))"
proof -
  let ?g = "\<lambda>k. rule \<le> take (length rule) (p ! k)"
  have f: "\<forall>k<length p. andThen (idx p k) (\<lambda>row. search_cmp row 0 rule) = Inr (?g k)"
    using assms(2) search_cmp_eq [of 0 rule] by simp
  have mono: "\<forall>a b. a \<le> b \<and> b < length p \<and> ?g a \<longrightarrow> ?g b"
  proof (intro allI impI, elim conjE)
    fix a b assume "a \<le> b" "b < length p" "?g a"
    from \<open>sorted p\<close> \<open>a \<le> b\<close> \<open>b < length p\<close> have "p ! a \<le> p ! b"
      by (rule sorted_nth_mono)
    then have "take (length rule) (p ! a) \<le> take (length rule) (p ! b)"
      by (rule take_le_mono)
    with \<open>?g a\<close> show "?g b" by (rule order_trans)
  qed
  from Search_mono [OF f mono] show ?thesis
    by (auto simp: search_def not_le [symmetric])
qed

lemma insert_at:
  "i < length p \<Longrightarrow> (take (Suc i) p @ drop i p)[i := r] = take i p @ r # drop i p"
  by (simp add: take_Suc_conv_app_nth list_update_append)

lemma insort_after_smaller:
  "\<forall>y\<in>set xs. y < x \<Longrightarrow> insort x (xs @ ys) = xs @ insort x ys"
  by (induction xs) auto

lemma Insert_sorted:
  assumes "sorted p" and "\<forall>row\<in>set p. length row = length r"
  shows "Insert p (Some r) = Inr (if r \<in> set p then p else insort r p)"
proof -
  from assms(2) have w: "\<forall>row\<in>set p. length r \<le> length row" by simp
  from search_sorted [OF assms(1) w] obtain i where i: "i \<le> length p" "search p r = Inr i"
    and lo: "\<forall>k<i. take (length r) (p ! k) < r"
    and hi: "\<forall>k. i \<le> k \<and> k < length p \<longrightarrow> r \<le> take (length r) (p ! k)" by blast
  have full: "\<And>k. k < length p \<Longrightarrow> take (length r) (p ! k) = p ! k"
    using assms(2) by simp
  show ?thesis
  proof (cases "i < length p \<and> p ! i = r")
    case True
    then have "r \<in> set p" by (metis nth_mem)
    with True i show ?thesis by (simp add: Insert_def)
  next
    case False
    have notin: "r \<notin> set p"
    proof
      assume "r \<in> set p"
      then obtain k where k: "k < length p" "p ! k = r" by (auto simp: in_set_conv_nth)
      show False
      proof (cases "k < i")
        case True
        with lo k full show False by force
      next
        case False
        with k i have il: "i < length p" by simp
        from hi il full have "r \<le> p ! i" by force
        moreover have "p ! i \<le> p ! k"
          using sorted_nth_mono [OF \<open>sorted p\<close>, of i k] \<open>\<not> k < i\<close> k(1) by simp
        ultimately have "p ! i = r" using k by simp
        with il \<open>\<not> (i < length p \<and> p ! i = r)\<close> show False by simp
      qed
    qed
    have small: "\<forall>y\<in>set (take i p). y < r"
      using lo full i by (auto simp: in_set_conv_nth)
    have big: "\<forall>y\<in>set (drop i p). r \<le> y"
    proof
      fix y assume "y \<in> set (drop i p)"
      then obtain k where "k < length p - i" "y = p ! (i + k)" by (auto simp: in_set_conv_nth)
      with hi full show "r \<le> y" by force
    qed
    have "insort r p = insort r (take i p @ drop i p)" by simp
    also have "\<dots> = take i p @ insort r (drop i p)" using small by (rule insort_after_smaller)
    also have "\<dots> = take i p @ r # drop i p" using big by (simp add: insort_is_Cons)
    finally have ins: "insort r p = take i p @ r # drop i p" .
    show ?thesis
    proof (cases "i < length p")
      case True
      with False i notin ins show ?thesis by (simp add: Insert_def insert_at)
    next
      case False
      with i have "i = length p" by simp
      with i notin ins show ?thesis by (simp add: Insert_def)
    qed
  qed
qed

lemma Remove_sorted:
  assumes "sorted p" and "\<forall>row\<in>set p. length row = length r"
  shows "Remove p (Some r) = Inr (remove1 r p)"
proof -
  from assms(2) have w: "\<forall>row\<in>set p. length r \<le> length row" by simp
  from search_sorted [OF assms(1) w] obtain i where i: "i \<le> length p" "search p r = Inr i"
    and lo: "\<forall>k<i. take (length r) (p ! k) < r"
    and hi: "\<forall>k. i \<le> k \<and> k < length p \<longrightarrow> r \<le> take (length r) (p ! k)" by blast
  have full: "\<And>k. k < length p \<Longrightarrow> take (length r) (p ! k) = p ! k"
    using assms(2) by simp
  have small: "r \<notin> set (take i p)"
    using lo full i by (auto simp: in_set_conv_nth)
  show ?thesis
  proof (cases "i < length p \<and> p ! i = r")
    case True
    then have "p = take i p @ r # drop (Suc i) p" by (metis id_take_nth_drop)
    then have "remove1 r p = remove1 r (take i p @ r # drop (Suc i) p)" by simp
    also have "\<dots> = take i p @ drop (Suc i) p" using small by (simp add: remove1_append)
    finally show ?thesis using True i by (simp add: Remove_def)
  next
    case False
    have "r \<notin> set p"
    proof
      assume "r \<in> set p"
      then obtain k where k: "k < length p" "p ! k = r" by (auto simp: in_set_conv_nth)
      show False
      proof (cases "k < i")
        case True
        with lo k full show False by force
      next
        case False
        with k i have il: "i < length p" by simp
        from hi il full have "r \<le> p ! i" by force
        moreover have "p ! i \<le> p ! k"
          using sorted_nth_mono [OF \<open>sorted p\<close>, of i k] \<open>\<not> k < i\<close> k(1) by simp
        ultimately have "p ! i = r" using k by simp
        with il \<open>\<not> (i < length p \<and> p ! i = r)\<close> show False by simp
      qed
    qed
    with False i show ?thesis by (auto simp: Remove_def remove1_idem)
  qed
qed

lemma Find_sorted:
  assumes "sorted p" and "\<forall>row\<in>set p. length q \<le> length row"
  shows "Find p (Some q) = Inr (find (\<lambda>row. take (length q) row = q) p)"
proof -
  let ?n = "length q"
  from search_sorted [OF assms] obtain i where i: "i \<le> length p" "search p q = Inr i"
    and lo: "\<forall>k<i. take ?n (p ! k) < q"
    and hi: "\<forall>k. i \<le> k \<and> k < length p \<longrightarrow> q \<le> take ?n (p ! k)" by blast
  show ?thesis
  proof (cases "i < length p \<and> take ?n (p ! i) = q")
    case True
    have "find (\<lambda>row. take ?n row = q) p = Some (p ! i)"
      unfolding find_Some_iff using True lo by (intro exI [of _ i]) auto
    with True i assms(2) show ?thesis by (simp add: Find_def slice_to_def)
  next
    case False
    note nomatch = False
    have "\<not> (\<exists>x\<in>set p. take ?n x = q)"
    proof
      assume "\<exists>x\<in>set p. take ?n x = q"
      then obtain k where k: "k < length p" "take ?n (p ! k) = q" by (auto simp: in_set_conv_nth)
      show False
      proof (cases "k < i")
        case True
        with lo k show False by force
      next
        case False
        with k i have il: "i < length p" by simp
        from hi il have "q \<le> take ?n (p ! i)" by force
        moreover have "p ! i \<le> p ! k"
          using sorted_nth_mono [OF \<open>sorted p\<close>, of i k] \<open>\<not> k < i\<close> k(1) by simp
        then have "take ?n (p ! i) \<le> take ?n (p ! k)" by (rule take_le_mono)
        ultimately have "take ?n (p ! i) = q" using k by simp
        with il nomatch show False by simp
      qed
    qed
    then have "find (\<lambda>row. take ?n row = q) p = None" by (simp add: find_None_iff)
    with False i assms(2) show ?thesis by (auto simp: Find_def slice_to_def)
  qed
qed

section \<open>The rule set invariant\<close>

lemma apply_op_RuleSet:
  assumes "RuleSet w p" and "is_rule w (rule_of x)"
  shows "\<exists>p'. apply_op p x = Inr p' \<and> RuleSet w p'"
proof -
  from assms(2) obtain r where r: "rule_of x = Some r" "length r = w"
    by (auto simp: is_rule_def split: option.splits)
  from assms(1) r have s: "sorted p" and w: "\<forall>row\<in>set p. length row = length r"
    by (auto simp: RuleSet_def)
  show ?thesis
  proof (cases x)
    case (OpInsert rule)
    with r have "apply_op p x = Inr (if r \<in> set p then p else insort r p)"
      using Insert_sorted [OF s w] by simp
    moreover have "RuleSet w (if r \<in> set p then p else insort r p)"
      using assms(1) r by (auto simp: RuleSet_def sorted_insort distinct_insort set_insort_key)
    ultimately show ?thesis by blast
  next
    case (OpRemove rule)
    with r have "apply_op p x = Inr (remove1 r p)"
      using Remove_sorted [OF s w] by simp
    moreover have "RuleSet w (remove1 r p)"
      using assms(1) set_remove1_subset [of r p] by (auto simp: RuleSet_def sorted_remove1)
    ultimately show ?thesis by blast
  qed
qed

lemma run_ops_RuleSet:
  "RuleSet w p \<Longrightarrow> \<forall>x\<in>set ops. is_rule w (rule_of x) \<Longrightarrow>
   \<exists>p'. run_ops p ops = Inr p' \<and> RuleSet w p'"
proof (induction ops arbitrary: p)
  case Nil
  then show ?case by simp
next
  case (Cons x xs)
  from apply_op_RuleSet [of w p x] Cons.prems obtain p1
    where p1: "apply_op p x = Inr p1" "RuleSet w p1" by auto
  from Cons.IH [OF p1(2)] Cons.prems obtain p' where "run_ops p1 xs = Inr p'" "RuleSet w p'"
    by auto
  with p1 show ?case by simp
qed

lemma RuleSet_adjacent:
  assumes "RuleSet w p" and "Suc i < length p"
  shows "Less p i (Suc i) = Inr True"
proof -
  from assms have "sorted_wrt (<) p" by (simp add: RuleSet_def strict_sorted_iff)
  with assms(2) have "p ! i < p ! Suc i" by (simp add: sorted_wrt_nth_less)
  moreover from assms have "length (p ! i) = length (p ! Suc i)" by (simp add: RuleSet_def)
  ultimately show ?thesis using assms(2) by (simp add: Less_eq)
qed

text \<open>
  Claim C3. Starting from the empty rule set, after any finite sequence of \<open>Insert\<close>
  and \<open>Remove\<close> operations on rules of one fixed width \<open>w\<close>, no operation has
  panicked and the stored sequence is lexicographically sorted and holds no two equal
  rules; every stored tuple has width \<open>w\<close>, and \<^verbatim>\<open>Less\<close> itself answers true
  for every adjacent pair, so neighbours are strictly increasing in the position-wise,
  byte-wise comparison of the code.
\<close>

theorem insert_remove_keep_sorted_distinct:
  assumes "\<forall>x\<in>set ops. is_rule w (rule_of x)"
  shows "\<exists>p. run_ops [] ops = Inr p \<and> sorted p \<and> distinct p \<and> (\<forall>row\<in>set p. length row = w)
           \<and> (\<forall>i. Suc i < length p \<longrightarrow> Less p i (Suc i) = Inr True)"
proof -
  have "RuleSet w []" by (simp add: RuleSet_def)
  from run_ops_RuleSet [OF this assms] obtain p where p: "run_ops [] ops = Inr p" "RuleSet w p"
    by blast
  then show ?thesis using RuleSet_adjacent [OF p(2)] by (auto simp: RuleSet_def)
qed

theorem insert_remove_keep_sorted_distinct_witness:
  "\<exists>p. run_ops [] [OpInsert (Some [''b'', ''o'']), OpInsert (Some [''a'', ''f'']),
          OpInsert (Some [''b'', ''o'']), OpRemove (Some [''c'', ''e'']), OpRemove (Some [''a'', ''f''])]
        = Inr p \<and> p = [[''b'', ''o'']] \<and> sorted p \<and> distinct p"
  using insert_remove_keep_sorted_distinct [of "[OpInsert (Some [''b'', ''o'']), OpInsert (Some [''a'', ''f'']),
          OpInsert (Some [''b'', ''o'']), OpRemove (Some [''c'', ''e'']), OpRemove (Some [''a'', ''f''])]" 2]
  by (simp add: is_rule_def Insert_def Remove_def search_def Search_def Search_loop.simps)

text \<open>
  Claim C6. \<open>Insert\<close> is idempotent: on a sorted rule set of fixed-width tuples,
  inserting a rule of that width twice gives the same outcome as inserting it once.
\<close>

theorem Insert_idempotent:
  assumes "sorted p" and "\<forall>row\<in>set p. length row = length r"
  shows "andThen (Insert p (Some r)) (\<lambda>p'. Insert p' (Some r)) = Insert p (Some r)"
proof (cases "r \<in> set p")
  case True
  with Insert_sorted [OF assms] have "Insert p (Some r) = Inr p" by simp
  then show ?thesis by simp
next
  case False
  with Insert_sorted [OF assms] have 1: "Insert p (Some r) = Inr (insort r p)" by simp
  have "sorted (insort r p)" using assms(1) by (simp add: sorted_insort)
  moreover have "\<forall>row\<in>set (insort r p). length row = length r"
    using assms(2) by (simp add: set_insort_key)
  ultimately have "Insert (insort r p) (Some r)
      = Inr (if r \<in> set (insort r p) then insort r p else insort r (insort r p))"
    by (rule Insert_sorted)
  then have "Insert (insort r p) (Some r) = Inr (insort r p)" by (simp add: set_insort_key)
  then show ?thesis unfolding 1 andThen_Inr .
qed

theorem Insert_idempotent_witness:
  "andThen (Insert [[''a'', ''d''], [''c'', ''e'']] (Some [''b'', ''o'']))
     (\<lambda>p'. Insert p' (Some [''b'', ''o''])) = Inr [[''a'', ''d''], [''b'', ''o''], [''c'', ''e'']]
   \<and> Insert [[''a'', ''d''], [''c'', ''e'']] (Some [''b'', ''o''])
       = Inr [[''a'', ''d''], [''b'', ''o''], [''c'', ''e'']]"
  using Insert_idempotent [of "[[''a'', ''d''], [''c'', ''e'']]" "[''b'', ''o'']"]
  by (simp add: Insert_def search_def Search_def Search_loop.simps)

text \<open>
  Claim C7. On a sorted, duplicate-free rule set of fixed-width tuples and for a rule
  \<open>r\<close> of the full width, \<open>Remove(r)\<close> followed by \<open>Find(r)\<close> returns nil, without a
  panic.
\<close>

theorem Remove_then_Find:
  assumes "sorted p" and "distinct p" and "\<forall>row\<in>set p. length row = length r"
  shows "andThen (Remove p (Some r)) (\<lambda>p'. Find p' (Some r)) = Inr None"
proof -
  have 1: "Remove p (Some r) = Inr (remove1 r p)" using assms(1,3) by (rule Remove_sorted)
  have "sorted (remove1 r p)" using assms(1) by (rule sorted_remove1)
  moreover have "\<forall>row\<in>set (remove1 r p). length r \<le> length row"
    using assms(3) set_remove1_subset [of r p] by auto
  ultimately have "Find (remove1 r p) (Some r)
      = Inr (find (\<lambda>row. take (length r) row = r) (remove1 r p))"
    by (rule Find_sorted)
  moreover have "find (\<lambda>row. take (length r) row = r) (remove1 r p) = None"
    using assms(2,3) set_remove1_subset [of r p] by (auto simp: find_None_iff)
  ultimately have "Find (remove1 r p) (Some r) = Inr None" by simp
  then show ?thesis unfolding 1 andThen_Inr .
qed

theorem Remove_then_Find_witness:
  "andThen (Remove [[''a'', ''d''], [''b'', ''o''], [''c'', ''e'']] (Some [''b'', ''o'']))
     (\<lambda>p'. Find p' (Some [''b'', ''o''])) = Inr None
   \<and> Remove [[''a'', ''d''], [''b'', ''o''], [''c'', ''e'']] (Some [''b'', ''o''])
       = Inr [[''a'', ''d''], [''c'', ''e'']]"
  using Remove_then_Find [of "[[''a'', ''d''], [''b'', ''o''], [''c'', ''e'']]" "[''b'', ''o'']"]
  by (simp add: Remove_def search_def Search_def Search_loop.simps)

section \<open>Filter: the brute-force part and totality\<close>

lemma matches_iff:
  "length pat \<le> length row \<Longrightarrow>
   matches pat row = (\<forall>i<length pat. pat ! i = '''' \<or> row ! i = pat ! i)"
proof (induction pat row rule: matches.induct)
  case (1 row)
  then show ?case by simp
next
  case (2 s pat)
  then show ?case by simp
next
  case (3 s pat v row)
  then have "matches pat row = (\<forall>i<length pat. pat ! i = '''' \<or> row ! i = pat ! i)" by simp
  then show ?case by (auto simp: less_Suc_eq_0_disj)
qed

lemma matches_drop_Cons:
  "k < length row \<Longrightarrow>
   matches (s # pat) (drop k row) = ((s = '''' \<or> row ! k = s) \<and> matches pat (drop (Suc k) row))"
  by (simp add: drop_nth_Cons)

lemma collect_Cons [simp]:
  "collect (row # rows) (e # es) = (if e = 0 then row # collect rows es else collect rows es)"
  by (simp add: collect_def)

lemma collect_Nil [simp]: "collect [] es = []"
  by (simp add: collect_def)

lemma collect_zeros: "collect p (replicate (length p) 0) = p"
  by (induction p) auto

lemma mark_correct:
  "length es = length p \<Longrightarrow> \<forall>row\<in>set p. k < length row \<Longrightarrow>
   \<exists>es'. mark k s p es = Inr es' \<and> length es' = length p
      \<and> collect p es' = filter (\<lambda>row. row ! k = s) (collect p es)"
proof (induction p arbitrary: es)
  case Nil
  then show ?case by simp
next
  case (Cons row rows)
  then obtain e es0 where es: "es = e # es0" by (cases es) auto
  with Cons.prems have "length es0 = length rows" "\<forall>row\<in>set rows. k < length row" by auto
  from Cons.IH [OF this] obtain es1 where es1: "mark k s rows es0 = Inr es1"
    "length es1 = length rows" "collect rows es1 = filter (\<lambda>row. row ! k = s) (collect rows es0)"
    by blast
  from Cons.prems have "k < length row" by simp
  with es es1 show ?case by auto
qed

lemma brute_correct:
  "length ex = length p \<Longrightarrow> rest = [] \<or> (\<forall>row\<in>set p. k + length rest \<le> length row) \<Longrightarrow>
   \<exists>ex'. brute k rest p ex = Inr ex' \<and> length ex' = length p
      \<and> collect p ex' = filter (\<lambda>row. matches rest (drop k row)) (collect p ex)"
proof (induction rest arbitrary: k ex)
  case Nil
  then show ?case by simp
next
  case (Cons s rest)
  then have w: "\<forall>row\<in>set p. k + length (s # rest) \<le> length row" by simp
  then have wk: "\<forall>row\<in>set p. k < length row" 
    and wr: "rest = [] \<or> (\<forall>row\<in>set p. Suc k + length rest \<le> length row)" by auto
  have sub: "\<And>ex0. set (collect p ex0) \<subseteq> set p"
    by (auto simp: collect_def dest: set_zip_leftD)
  show ?case
  proof (cases "s = ''''")
    case True
    from Cons.IH [OF Cons.prems(1) wr] obtain ex' where ex': "brute (Suc k) rest p ex = Inr ex'"
      "length ex' = length p"
      "collect p ex' = filter (\<lambda>row. matches rest (drop (Suc k) row)) (collect p ex)" by blast
    have "filter (\<lambda>row. matches rest (drop (Suc k) row)) (collect p ex)
        = filter (\<lambda>row. matches (s # rest) (drop k row)) (collect p ex)"
      using True wk sub [of ex] by (intro filter_cong) (auto simp: matches_drop_Cons)
    with ex' True show ?thesis by simp
  next
    case False
    from mark_correct [OF Cons.prems(1) wk, of s] obtain ex1 where ex1: "mark k s p ex = Inr ex1"
      "length ex1 = length p" "collect p ex1 = filter (\<lambda>row. row ! k = s) (collect p ex)" by blast
    from Cons.IH [OF ex1(2) wr] obtain ex' where ex': "brute (Suc k) rest p ex1 = Inr ex'"
      "length ex' = length p"
      "collect p ex' = filter (\<lambda>row. matches rest (drop (Suc k) row)) (collect p ex1)" by blast
    have "filter (\<lambda>row. matches rest (drop (Suc k) row)) (collect p ex1)
        = filter (\<lambda>row. row ! k = s \<and> matches rest (drop (Suc k) row)) (collect p ex)"
      unfolding ex1(3) by (simp add: conj_commute)
    also have "\<dots> = filter (\<lambda>row. matches (s # rest) (drop k row)) (collect p ex)"
      using False wk sub [of ex] by (intro filter_cong) (auto simp: matches_drop_Cons)
    finally show ?thesis using ex' ex1 False by simp
  qed
qed

lemma col_ge_eq:
  "i < length p \<Longrightarrow> j < length (p ! i) \<Longrightarrow> col_ge p j s i = Inr (s \<le> p ! i ! j)"
  by (simp add: col_ge_def)

lemma col_gt_eq:
  "i < length p \<Longrightarrow> j < length (p ! i) \<Longrightarrow> col_gt p j s i = Inr (s < p ! i ! j)"
  by (simp add: col_gt_def)

lemma narrow_total:
  "\<forall>row\<in>set p. pos + length rest \<le> length row \<Longrightarrow>
   \<exists>p' j'. narrow p j pos rest = Inr (p', j') \<and> set p' \<subseteq> set p
      \<and> ((rest = [] \<and> j' = j) \<or> (pos \<le> j' \<and> j' < pos + length rest))"
proof (induction rest arbitrary: p j pos)
  case Nil
  then show ?case by simp
next
  case (Cons s rest)
  show ?case
  proof (cases "s = ''''")
    case True
    then show ?thesis by simp
  next
    case False
    from Cons.prems have wk: "\<forall>row\<in>set p. pos < length row" by auto
    have "\<forall>i<length p. \<exists>b. col_ge p pos s i = Inr b"
      using wk by (simp add: col_ge_eq)
    from Search_total [OF this] obtain a where a: "Search (length p) (col_ge p pos s) = Inr a"
      by blast
    let ?q = "drop a p"
    have "\<forall>i<length ?q. \<exists>b. col_gt ?q pos s i = Inr b"
      using wk by (simp add: col_gt_eq)
    from Search_total [OF this] obtain e where e: "Search (length ?q) (col_gt ?q pos s) = Inr e"
      by blast
    let ?p2 = "take e ?q"
    have sub: "set ?p2 \<subseteq> set p"
      by (meson set_take_subset set_drop_subset subset_trans)
    with Cons.prems have "\<forall>row\<in>set ?p2. Suc pos + length rest \<le> length row" by auto
    from Cons.IH [OF this, of pos] obtain p' j' where
      "narrow ?p2 pos (Suc pos) rest = Inr (p', j')" "set p' \<subseteq> set ?p2"
      "(rest = [] \<and> j' = pos) \<or> (Suc pos \<le> j' \<and> j' < Suc pos + length rest)" by blast
    with a e False sub show ?thesis by auto
  qed
qed

lemma Filter_total:
  assumes "\<forall>row\<in>set p. length rule \<le> length row"
  shows "\<exists>res. Filter p rule = Inr res"
proof -
  from assms have "\<forall>row\<in>set p. 0 + length rule \<le> length row" by simp
  from narrow_total [OF this, of 0] obtain p' j' where n: "narrow p 0 0 rule = Inr (p', j')"
    "set p' \<subseteq> set p" "(rule = [] \<and> j' = 0) \<or> (0 \<le> j' \<and> j' < 0 + length rule)" by blast
  have "drop (Suc j') rule = [] \<or> (\<forall>row\<in>set p'. Suc j' + length (drop (Suc j') rule) \<le> length row)"
  proof (cases "Suc j' < length rule")
    case True
    then have "Suc j' + length (drop (Suc j') rule) = length rule" by simp
    with n(2) assms show ?thesis by auto
  next
    case False
    then show ?thesis by simp
  qed
  from brute_correct [OF _ this, of "replicate (length p') 0"] obtain ex'
    where "brute (Suc j') (drop (Suc j') rule) p' (replicate (length p') 0) = Inr ex'" by auto
  with n show ?thesis by (simp add: Filter_def)
qed

section \<open>Filter on a sorted rule set\<close>

lemma Search_on_list:
  assumes f: "\<forall>k<length p. f k = Inr (P (p ! k))"
    and mono: "\<forall>a b. a \<le> b \<and> b < length p \<and> P (p ! a) \<longrightarrow> P (p ! b)"
  shows "\<exists>a\<le>length p. Search (length p) f = Inr a
           \<and> (\<forall>x\<in>set (take a p). \<not> P x) \<and> (\<forall>x\<in>set (drop a p). P x)"
proof -
  from Search_mono [of "length p" f "\<lambda>k. P (p ! k)", OF f mono] obtain a where
    a: "a \<le> length p" "Search (length p) f = Inr a" and lo: "\<forall>k<a. \<not> P (p ! k)"
    and hi: "\<forall>k. a \<le> k \<and> k < length p \<longrightarrow> P (p ! k)" by blast
  have "\<forall>x\<in>set (take a p). \<not> P x"
    using lo a(1) by (auto simp: in_set_conv_nth)
  moreover have "\<forall>x\<in>set (drop a p). P x"
  proof
    fix x assume "x \<in> set (drop a p)"
    then obtain k where "k < length p - a" "x = p ! (a + k)" by (auto simp: in_set_conv_nth)
    with hi show "P x" by simp
  qed
  ultimately show ?thesis using a by blast
qed

lemma column_sorted:
  assumes "sorted p" and "\<forall>x\<in>set p. \<forall>y\<in>set p. take pos x = take pos y"
    and "\<forall>row\<in>set p. pos < length row" and "a \<le> b" and "b < length p"
  shows "p ! a ! pos \<le> p ! b ! pos"
proof -
  from assms(4,5) have m: "p ! a \<in> set p" "p ! b \<in> set p" by simp_all
  have le: "p ! a \<le> p ! b" using assms(1,4,5) by (rule sorted_nth_mono)
  have pre: "take pos (p ! a) = take pos (p ! b)" using assms(2) m by blast
  have la: "pos < length (p ! a)" using assms(3) m(1) by blast
  have lb: "pos < length (p ! b)" using assms(3) m(2) by blast
  show ?thesis by (rule nth_le_of_common_prefix [OF pre la lb le])
qed

lemma column_range:
  assumes "sorted p" and "\<forall>x\<in>set p. \<forall>y\<in>set p. take pos x = take pos y"
    and "\<forall>row\<in>set p. pos < length row"
  shows "\<exists>a e. Search (length p) (col_ge p pos s) = Inr a
           \<and> Search (length (drop a p)) (col_gt (drop a p) pos s) = Inr e
           \<and> take e (drop a p) = filter (\<lambda>row. row ! pos = s) p"
proof -
  have f1: "\<forall>k<length p. col_ge p pos s k = Inr (s \<le> p ! k ! pos)"
    using assms(3) by (simp add: col_ge_eq)
  have m1: "\<forall>a b. a \<le> b \<and> b < length p \<and> s \<le> p ! a ! pos \<longrightarrow> s \<le> p ! b ! pos"
    using column_sorted [OF assms] by (meson order_trans)
  from Search_on_list [of p "col_ge p pos s" "\<lambda>row. s \<le> row ! pos", OF f1 m1] obtain a where
    a: "Search (length p) (col_ge p pos s) = Inr a"
    and lo: "\<forall>x\<in>set (take a p). \<not> s \<le> x ! pos" and hi: "\<forall>x\<in>set (drop a p). s \<le> x ! pos"
    by blast
  let ?q = "drop a p"
  have sq: "sorted ?q" using assms(1) by (rule sorted_wrt_drop)
  have subq: "set ?q \<subseteq> set p" by (rule set_drop_subset)
  have pq: "\<forall>x\<in>set ?q. \<forall>y\<in>set ?q. take pos x = take pos y" using assms(2) subq by blast
  have wq: "\<forall>row\<in>set ?q. pos < length row" using assms(3) subq by blast
  have f2: "\<forall>k<length ?q. col_gt ?q pos s k = Inr (s < ?q ! k ! pos)"
    using wq by (simp add: col_gt_eq del: length_drop nth_drop)
  have m2: "\<forall>a b. a \<le> b \<and> b < length ?q \<and> s < ?q ! a ! pos \<longrightarrow> s < ?q ! b ! pos"
    using column_sorted [OF sq pq wq] by (meson less_le_trans)
  from Search_on_list [of ?q "col_gt ?q pos s" "\<lambda>row. s < row ! pos", OF f2 m2] obtain e where
    e: "Search (length ?q) (col_gt ?q pos s) = Inr e"
    and lo2: "\<forall>x\<in>set (take e ?q). \<not> s < x ! pos" and hi2: "\<forall>x\<in>set (drop e ?q). s < x ! pos"
    by blast
  have "take a p @ take e ?q @ drop e ?q = p" by (simp only: append_take_drop_id)
  then have "filter (\<lambda>row. row ! pos = s) (take a p @ take e ?q @ drop e ?q)
      = filter (\<lambda>row. row ! pos = s) p" by (rule arg_cong)
  then have "filter (\<lambda>row. row ! pos = s) p
      = filter (\<lambda>row. row ! pos = s) (take a p) @ filter (\<lambda>row. row ! pos = s) (take e ?q)
        @ filter (\<lambda>row. row ! pos = s) (drop e ?q)"
    by (simp only: filter_append)
  moreover have "filter (\<lambda>row. row ! pos = s) (take a p) = []"
    using lo by (auto simp: filter_empty_conv)
  moreover have "filter (\<lambda>row. row ! pos = s) (drop e ?q) = []"
    using hi2 by (auto simp: filter_empty_conv)
  moreover have "filter (\<lambda>row. row ! pos = s) (take e ?q) = take e ?q"
  proof (rule filter_True, rule ballI)
    fix x assume x: "x \<in> set (take e ?q)"
    then have "x \<in> set ?q" by (rule in_set_takeD)
    with hi have "s \<le> x ! pos" by blast
    moreover from lo2 x have "\<not> s < x ! pos" by blast
    ultimately show "x ! pos = s" by simp
  qed
  ultimately have "take e ?q = filter (\<lambda>row. row ! pos = s) p" by simp
  with a e show ?thesis by blast
qed

lemma narrow_sorted:
  assumes "sorted p" and "\<forall>x\<in>set p. \<forall>y\<in>set p. take pos x = take pos y"
    and "\<forall>row\<in>set p. pos + length rest \<le> length row"
    and "rest = drop pos rule" and "(pos = 0 \<and> j = 0) \<or> Suc j = pos"
  shows "\<exists>p' j'. narrow p j pos rest = Inr (p', j')
           \<and> filter (\<lambda>row. matches (drop (Suc j') rule) (drop (Suc j') row)) p'
               = filter (\<lambda>row. matches rest (drop pos row)) p"
  using assms
proof (induction rest arbitrary: p j pos)
  case Nil
  then have "drop (Suc j) rule = []" by auto
  then show ?case by simp
next
  case (Cons s rest)
  from Cons.prems(3) have wk: "\<forall>row\<in>set p. pos < length row" by auto
  from Cons.prems(4) have rest: "rest = drop (Suc pos) rule"
    by (metis drop_Suc list.sel(3) tl_drop)
  show ?case
  proof (cases "s = ''''")
    case True
    have "filter (\<lambda>row. matches (drop (Suc pos) rule) (drop (Suc pos) row)) p
        = filter (\<lambda>row. matches (s # rest) (drop pos row)) p"
      using True wk rest by (intro filter_cong) (auto simp: matches_drop_Cons)
    with True show ?thesis by simp
  next
    case False
    from column_range [OF Cons.prems(1,2) wk, of s] obtain a e where
      a: "Search (length p) (col_ge p pos s) = Inr a"
      and e: "Search (length (drop a p)) (col_gt (drop a p) pos s) = Inr e"
      and p2: "take e (drop a p) = filter (\<lambda>row. row ! pos = s) p" by blast
    let ?p2 = "filter (\<lambda>row. row ! pos = s) p"
    have s2: "sorted ?p2" using Cons.prems(1) by (rule sorted_wrt_filter)
    have pre2: "\<forall>x\<in>set ?p2. \<forall>y\<in>set ?p2. take (Suc pos) x = take (Suc pos) y"
      using Cons.prems(2) wk by (auto simp: take_Suc_conv_app_nth)
    have w2: "\<forall>row\<in>set ?p2. Suc pos + length rest \<le> length row"
      using Cons.prems(3) by auto
    from Cons.IH [OF s2 pre2 w2 rest, of pos] obtain p' j' where
      n: "narrow ?p2 pos (Suc pos) rest = Inr (p', j')"
      and f: "filter (\<lambda>row. matches (drop (Suc j') rule) (drop (Suc j') row)) p'
               = filter (\<lambda>row. matches rest (drop (Suc pos) row)) ?p2" by auto
    have "filter (\<lambda>row. matches rest (drop (Suc pos) row)) ?p2
        = filter (\<lambda>row. row ! pos = s \<and> matches rest (drop (Suc pos) row)) p"
      by (simp add: conj_commute)
    also have "\<dots> = filter (\<lambda>row. matches (s # rest) (drop pos row)) p"
      using False wk by (intro filter_cong) (auto simp: matches_drop_Cons)
    finally have "filter (\<lambda>row. matches (drop (Suc j') rule) (drop (Suc j') row)) p'
        = filter (\<lambda>row. matches (s # rest) (drop pos row)) p" using f by simp
    with a e p2 n False show ?thesis by simp
  qed
qed

lemma Filter_sorted:
  assumes "sorted p" and "\<forall>row\<in>set p. length rule \<le> length row"
  shows "Filter p rule = Inr (filter (matches rule) p)"
proof -
  from assms(2) have w: "\<forall>row\<in>set p. 0 + length rule \<le> length row" by simp
  from narrow_total [OF w, of 0] obtain p' j' where n: "narrow p 0 0 rule = Inr (p', j')"
    "set p' \<subseteq> set p" "(rule = [] \<and> j' = 0) \<or> (0 \<le> j' \<and> j' < 0 + length rule)" by blast
  from narrow_sorted [OF assms(1) _ w, of rule 0] n(1)
  have f: "filter (\<lambda>row. matches (drop (Suc j') rule) (drop (Suc j') row)) p'
             = filter (matches rule) p" by simp
  show ?thesis
  proof (cases "p' = []")
    case True
    with f n(1) show ?thesis by (simp add: Filter_def)
  next
    case False
    have "drop (Suc j') rule = [] \<or> (\<forall>row\<in>set p'. Suc j' + length (drop (Suc j') rule) \<le> length row)"
    proof (cases "Suc j' < length rule")
      case True
      then have "Suc j' + length (drop (Suc j') rule) = length rule" by simp
      with n(2) assms(2) show ?thesis by auto
    next
      case False
      then show ?thesis by simp
    qed
    from brute_correct [OF _ this, of "replicate (length p') 0"] obtain ex'
      where "brute (Suc j') (drop (Suc j') rule) p' (replicate (length p') 0) = Inr ex'"
        "collect p' ex' = filter (\<lambda>row. matches (drop (Suc j') rule) (drop (Suc j') row)) p'"
      by (auto simp: collect_zeros)
    with n(1) f False show ?thesis by (simp add: Filter_def)
  qed
qed

text \<open>
  Claim C2. For a sorted rule set \<open>S\<close> of tuples of one width \<open>w\<close> and a pattern of
  length at most \<open>w\<close>, \<open>Filter\<close> returns, without a panic, exactly the tuples \<open>r\<close>
  of \<open>S\<close> with \<open>pattern[i] = ""\<close> or \<open>r[i] = pattern[i]\<close> at every position
  \<open>i\<close> of the pattern, in the order of \<open>S\<close>: the result is sorted and a subsequence
  of \<open>S\<close>.
\<close>

theorem Filter_exact:
  assumes "sorted S" and "\<forall>row\<in>set S. length row = w" and "length pattern \<le> w"
  shows "Filter S pattern
           = Inr (filter (\<lambda>r. \<forall>i<length pattern. pattern ! i = '''' \<or> r ! i = pattern ! i) S)
         \<and> sorted (filter (\<lambda>r. \<forall>i<length pattern. pattern ! i = '''' \<or> r ! i = pattern ! i) S)
         \<and> subseq (filter (\<lambda>r. \<forall>i<length pattern. pattern ! i = '''' \<or> r ! i = pattern ! i) S) S"
proof -
  from assms(2,3) have w: "\<forall>row\<in>set S. length pattern \<le> length row" by simp
  have "filter (matches pattern) S
      = filter (\<lambda>r. \<forall>i<length pattern. pattern ! i = '''' \<or> r ! i = pattern ! i) S"
    using w by (intro filter_cong) (auto simp: matches_iff)
  with Filter_sorted [OF assms(1) w] show ?thesis
    using assms(1) by (simp add: sorted_wrt_filter)
qed

theorem Filter_exact_witness:
  "Filter [[''a'', ''b'', ''c''], [''a'', ''d'', ''f''], [''a'', ''f'', ''g''], [''b'', ''e'', ''g'']]
     [''a'', '''', ''f''] = Inr [[''a'', ''d'', ''f'']]
   \<and> Filter [[''a'', ''b'', ''c''], [''a'', ''d'', ''f''], [''a'', ''f'', ''g''], [''b'', ''e'', ''g'']]
     ['''', '''', ''g''] = Inr [[''a'', ''f'', ''g''], [''b'', ''e'', ''g'']]"
  using Filter_exact [of "[[''a'', ''b'', ''c''], [''a'', ''d'', ''f''], [''a'', ''f'', ''g''], [''b'', ''e'', ''g'']]"
      3 "[''a'', '''', ''f'']"]
    Filter_exact [of "[[''a'', ''b'', ''c''], [''a'', ''d'', ''f''], [''a'', ''f'', ''g''], [''b'', ''e'', ''g'']]"
      3 "['''', '''', ''g'']"]
  by (simp add: All_less_Suc)

section \<open>No out-of-range access\<close>

lemma Less_total:
  assumes "i < length p" and "j < length p" and "length (p ! i) \<le> length (p ! j)"
  shows "\<exists>b. Less p i j = Inr b"
  using Less_loop_eq [of j p 0 "p ! i"] assms by (simp add: Less_def)

text \<open>
  Claim C10. The rule set operations index stored tuples at positions drawn from the query
  or pattern with no bounds check. When every stored tuple is at least as long as the
  supplied query or pattern, \<open>search\<close>, \<open>Insert\<close>, \<open>Remove\<close>, \<open>Find\<close> and
  \<open>Filter\<close> return a result: no panic is reachable, whether or not the set is sorted.
  \<open>Less(i, j)\<close> returns for indices in range when tuple \<open>j\<close> is at least as long as
  tuple \<open>i\<close>, in particular when both have one width.
\<close>

theorem no_out_of_range_access:
  assumes "\<forall>row\<in>set p. length (elems rule) \<le> length row"
  shows "(\<exists>i. search p (elems rule) = Inr i)
       \<and> (\<exists>p'. Insert p rule = Inr p')
       \<and> (\<exists>p'. Remove p rule = Inr p')
       \<and> (\<exists>found. Find p rule = Inr found)
       \<and> (\<exists>res. Filter p (elems rule) = Inr res)
       \<and> (\<forall>i<length p. \<forall>j<length p. length (p ! i) \<le> length (p ! j) \<longrightarrow> (\<exists>b. Less p i j = Inr b))"
proof -
  from search_total [OF assms] obtain i where i: "i \<le> length p" "search p (elems rule) = Inr i"
    by blast
  have 1: "\<exists>i. search p (elems rule) = Inr i" using i by blast
  have 2: "\<exists>p'. Insert p rule = Inr p'" using i by (simp add: Insert_def Let_def)
  have 3: "\<exists>p'. Remove p rule = Inr p'" using i by (simp add: Remove_def)
  have 4: "\<exists>found. Find p rule = Inr found"
    using i assms by (simp add: Find_def slice_to_def)
  have 5: "\<exists>res. Filter p (elems rule) = Inr res" using assms by (rule Filter_total)
  have 6: "\<forall>i<length p. \<forall>j<length p. length (p ! i) \<le> length (p ! j) \<longrightarrow> (\<exists>b. Less p i j = Inr b)"
    using Less_total by blast
  from 1 2 3 4 5 6 show ?thesis by blast
qed

theorem no_out_of_range_access_witness:
  "search [[''a'', ''d''], [''c'', ''e'']] [''b''] = Inr 1
   \<and> Filter [[''a'', ''d''], [''c'', ''e'']] [''c''] = Inr [[''c'', ''e'']]
   \<and> Less [[''a'', ''d''], [''c'', ''e'']] 0 1 = Inr True"
  using no_out_of_range_access [of "[[''a'', ''d''], [''c'', ''e'']]" "Some [''b'']"]
  by (simp add: search_def Search_def Search_loop.simps Filter_def col_ge_def col_gt_def Less_def)

text \<open>
  The condition is sufficient, not necessary: a comparison decided at an earlier position
  never reads the missing one, and \<open>Filter\<close> never reads a position whose pattern
  is the wildcard. Here the stored tuple is shorter than the query or pattern (and the
  second tuple shorter than the first for \<open>Less\<close>), and nothing panics.
\<close>

theorem short_tuple_without_panic:
  "search [[''a'']] [''b'', ''c''] = Inr 1
   \<and> Filter [[''a'']] [''a'', ''''] = Inr [[''a'']]
   \<and> Less [[''b'', ''c''], [''a'']] 0 1 = Inr False
   \<and> length [''a''] < length [''b'', ''c'']"
  by (simp add: search_def Search_def Search_loop.simps Filter_def col_ge_def col_gt_def Less_def)


section \<open>FilterWithGroups\<close>

lemma FilterWithGroups_loop_concat:
  assumes "0 \<le> pvi" and "0 \<le> gvi" and "\<forall>g\<in>set groups. nat gvi < length g"
    and "\<forall>row\<in>set P. nat pvi < length row"
    and "fs = replicate (nat pvi) '''' @ [x]"
  shows "\<exists>results.
           list_all2 (\<lambda>g res. Filter P (replicate (nat pvi) '''' @ [g ! nat gvi]) = Inr res)
             groups results
         \<and> FilterWithGroups_loop P pvi gvi groups fs result = Inr (result @ concat results)"
  using assms(3,5)
proof (induction groups arbitrary: fs x result)
  case Nil
  then show ?case by simp
next
  case (Cons g groups)
  let ?pat = "replicate (nat pvi) '''' @ [g ! nat gvi]"
  from Cons.prems(1) have "nat gvi < length g" by simp
  with assms(2) have "gvi < int (length g)" by linarith
  with assms(2) have g: "idx_int g gvi = Inr (g ! nat gvi)"
    by (simp add: idx_int_def)
  have u: "upd_int fs pvi (g ! nat gvi) = Inr ?pat"
    using assms(1) Cons.prems(2) by (simp add: upd_int_def list_update_append)
  have "\<forall>row\<in>set P. length ?pat \<le> length row" using assms(4) by auto
  from Filter_total [OF this] obtain res where res: "Filter P ?pat = Inr res" by blast
  from Cons.prems(1) have "\<forall>g\<in>set groups. nat gvi < length g" by simp
  from Cons.IH [OF this refl, of "g ! nat gvi" "result @ res"] obtain results where
    r: "list_all2 (\<lambda>g res. Filter P (replicate (nat pvi) '''' @ [g ! nat gvi]) = Inr res)
             groups results"
    "FilterWithGroups_loop P pvi gvi groups ?pat (result @ res)
       = Inr ((result @ res) @ concat results)" by blast
  have "list_all2 (\<lambda>g res. Filter P (replicate (nat pvi) '''' @ [g ! nat gvi]) = Inr res)
             (g # groups) (res # results)" using res r(1) by simp
  moreover have "FilterWithGroups_loop P pvi gvi (g # groups) fs result
       = Inr (result @ concat (res # results))" using g u res r(2) by simp
  ultimately show ?case by blast
qed

lemma make_strings_in_range:
  assumes "0 \<le> policyValueIndex" and "policyValueIndex < max_string_slice"
  shows "make_strings (wrap_int64 (policyValueIndex + 1))
           = Inr (replicate (nat policyValueIndex) '''' @ [''''])"
proof -
  from assms have b: "policyValueIndex < 2 ^ 44" by (simp add: max_string_slice_def)
  have "(2::int) ^ 44 + 2 ^ 63 < 2 ^ 64" by simp
  with assms(1) b have hi: "policyValueIndex + 1 + 2 ^ 63 < 2 ^ 64" by linarith
  from assms(1) have lo: "0 \<le> policyValueIndex + 1 + 2 ^ 63" by simp
  have "(policyValueIndex + 1 + 2 ^ 63) mod 2 ^ 64 = policyValueIndex + 1 + 2 ^ 63"
    by (rule mod_pos_pos_trivial [OF lo hi])
  then have w: "wrap_int64 (policyValueIndex + 1) = policyValueIndex + 1"
    by (simp add: wrap_int64_def)
  have "replicate (nat (policyValueIndex + 1)) '''' = replicate (nat policyValueIndex) '''' @ ['''']"
    using assms(1) by (simp add: nat_add_distrib replicate_append_same)
  with assms(1) b show ?thesis
    unfolding w by (simp add: make_strings_def max_string_slice_def)
qed

text \<open>
  At the largest \<^verbatim>\<open>int\<close> the length \<^verbatim>\<open>policyValueIndex+1\<close> wraps to a negative
  number and \<^verbatim>\<open>make\<close> panics, also on an empty cache; a length beyond the runtime's
  bound panics in the same way.
\<close>

lemma FilterWithGroups_length_out_of_range:
  "FilterWithGroups \<lparr>m_p = [], m_g = []\<rparr> 9223372036854775807 [[''a'', ''b'']] 1
     = Inl MakeSliceLenOutOfRange
   \<and> FilterWithGroups \<lparr>m_p = [], m_g = []\<rparr> 17592186044416 [[''a'', ''b'']] 1
     = Inl MakeSliceLenOutOfRange"
  by (simp add: FilterWithGroups_def make_strings_def wrap_int64_def max_string_slice_def)

text \<open>
  Claim C9. For indices in range (\<open>policyValueIndex\<close> a position of every stored base
  tuple and below the \<open>2^44\<close> strings a slice can hold, \<open>groupValueIndex\<close> a position of
  every group), \<open>FilterWithGroups\<close> returns the concatenation, in group order, of the
  results of \<open>Filter\<close> on the base policies with the pattern of length
  \<open>policyValueIndex + 1\<close> whose earlier positions are empty strings and whose last
  position is \<open>g[groupValueIndex]\<close>; with no groups the result is empty.
\<close>

theorem FilterWithGroups_concat:
  assumes "0 \<le> policyValueIndex" and "policyValueIndex < max_string_slice"
    and "0 \<le> groupValueIndex"
    and "\<forall>g\<in>set groups. nat groupValueIndex < length g"
    and "\<forall>row\<in>set (m_p m). nat policyValueIndex < length row"
  shows "FilterWithGroups m policyValueIndex [] groupValueIndex = Inr []
       \<and> (\<exists>results.
            list_all2 (\<lambda>g res. Filter (m_p m)
                 (replicate (nat policyValueIndex) '''' @ [g ! nat groupValueIndex]) = Inr res)
              groups results
            \<and> FilterWithGroups m policyValueIndex groups groupValueIndex = Inr (concat results))"
proof -
  have e: "FilterWithGroups m policyValueIndex [] groupValueIndex = Inr []"
    by (simp add: FilterWithGroups_def)
  have mk: "make_strings (wrap_int64 (policyValueIndex + 1))
           = Inr (replicate (nat policyValueIndex) '''' @ [''''])"
    using assms(1,2) by (rule make_strings_in_range)
  from FilterWithGroups_loop_concat [OF assms(1,3,4,5) refl, of "''''" "[]"] obtain results where
    r: "list_all2 (\<lambda>g res. Filter (m_p m)
                 (replicate (nat policyValueIndex) '''' @ [g ! nat groupValueIndex]) = Inr res)
              groups results"
    "FilterWithGroups_loop (m_p m) policyValueIndex groupValueIndex groups
        (replicate (nat policyValueIndex) '''' @ ['''']) [] = Inr ([] @ concat results)" by blast
  show ?thesis
  proof (cases groups)
    case Nil
    with r(1) e show ?thesis by auto
  next
    case (Cons g gs)
    with r(2) mk have "FilterWithGroups m policyValueIndex groups groupValueIndex = Inr (concat results)"
      by (simp add: FilterWithGroups_def)
    with r(1) e show ?thesis by blast
  qed
qed

theorem FilterWithGroups_concat_witness:
  "FilterWithGroups \<lparr>m_p = [[''a'', ''b'', ''c''], [''a'', ''b'', ''d''], [''b'', ''a'', ''d'']], m_g = []\<rparr>
     0 [[''a'', ''b'', ''c''], [''b'', ''e'', ''f''], [''c'', ''a'', ''f'']] 1
   = Inr [[''b'', ''a'', ''d''], [''a'', ''b'', ''c''], [''a'', ''b'', ''d'']]"
  using FilterWithGroups_concat [of 0 1 "[[''a'', ''b'', ''c''], [''b'', ''e'', ''f''], [''c'', ''a'', ''f'']]"
      "\<lparr>m_p = [[''a'', ''b'', ''c''], [''a'', ''b'', ''d''], [''b'', ''a'', ''d'']], m_g = []\<rparr>"]
  by (simp add: FilterWithGroups_def make_strings_def wrap_int64_def max_string_slice_def
      idx_int_def upd_int_def Filter_def col_ge_def col_gt_def Search_def Search_loop.simps)

section \<open>The content hash\<close>

lemma policyID_loop_eq:
  "policyID_loop rule i e =
     (if '''' \<in> set rule then i + length (takeWhile (\<lambda>s. s \<noteq> '''') rule) else e)"
proof (induction rule arbitrary: i)
  case Nil
  then show ?case by simp
next
  case (Cons s rest)
  show ?case
  proof (cases "s = ''''")
    case True
    then show ?thesis by simp
  next
    case False
    then have "policyID_loop (s # rest) i e = policyID_loop rest (Suc i) e" by simp
    also have "\<dots> = (if '''' \<in> set rest then Suc i + length (takeWhile (\<lambda>s. s \<noteq> '''') rest) else e)"
      by (rule Cons.IH)
    finally show ?thesis using False by auto
  qed
qed

lemma policyID_prefix:
  "take (policyID_loop rule 0 (length rule)) rule = takeWhile (\<lambda>s. s \<noteq> '''') rule"
proof (cases "'''' \<in> set rule")
  case True
  then show ?thesis by (simp add: policyID_loop_eq takeWhile_eq_take [symmetric])
next
  case False
  then have "takeWhile (\<lambda>s. s \<noteq> '''') rule = rule" by (intro takeWhile_eq_all_conv [THEN iffD2]) auto
  moreover have "policyID_loop rule 0 (length rule) = length rule"
    using False by (simp add: policyID_loop_eq)
  ultimately show ?thesis by (simp only: take_all order_refl)
qed

lemma takeWhile_strip_trailing:
  "takeWhile (\<lambda>s. s \<noteq> '''') (strip_trailing rule) = takeWhile (\<lambda>s. s \<noteq> '''') rule"
proof (induction rule rule: rev_induct)
  case Nil
  then show ?case by (simp add: strip_trailing_def)
next
  case (snoc x xs)
  show ?case
  proof (cases "x = ''''")
    case True
    then have "strip_trailing (xs @ [x]) = strip_trailing xs" by (simp add: strip_trailing_def)
    moreover have "takeWhile (\<lambda>s. s \<noteq> '''') (xs @ [x]) = takeWhile (\<lambda>s. s \<noteq> '''') xs"
      using True by (simp add: takeWhile_tail)
    ultimately show ?thesis using snoc by simp
  next
    case False
    then have "strip_trailing (xs @ [x]) = xs @ [x]" by (simp add: strip_trailing_def)
    then show ?thesis by simp
  qed
qed

lemma hexdigit_lower: "n < 16 \<Longrightarrow> hexdigit n \<in> lower_hex"
  unfolding hexdigit_def lower_hex_def by (rule nth_mem) simp

lemma hexbyte_lower: "set (hexbyte b) \<subseteq> lower_hex"
proof -
  have "unat b < 2 ^ LENGTH(8)" by (rule unsigned_less)
  then have "unat b < 256" by simp
  then have "unat b div 16 < 16" "unat b mod 16 < 16" by auto
  then show ?thesis using hexdigit_lower unfolding hexbyte_def by simp
qed

lemma Sprintf_x_lower: "set (Sprintf_x bytes) \<subseteq> lower_hex"
  using hexbyte_lower by (auto simp: Sprintf_x_def)

lemma Sprintf_x_length: "length (Sprintf_x bytes) = 2 * length bytes"
  by (induction bytes) (auto simp: Sprintf_x_def hexbyte_def)

text \<open>
  Claim C5. \<open>policyID\<close> is a function of \<open>(ptype, rule)\<close> and ignores trailing empty
  positions: the id of a rule equals the id of the rule with all trailing empty strings
  removed. The id is the lowercase hexadecimal print of the checksum of \<open>ptype\<close> joined
  by a comma with the longest prefix of the rule that holds no empty string: two
  characters of \<open>0-9a-f\<close> per checksum byte.
\<close>

theorem policyID_ignores_trailing_empty:
  "policyID Checksum ptype rule = policyID Checksum ptype (strip_trailing rule)
   \<and> policyID Checksum ptype rule
       = Sprintf_x (Checksum 0 (Join (ptype # takeWhile (\<lambda>s. s \<noteq> '''') rule) '',''))
   \<and> set (policyID Checksum ptype rule) \<subseteq> lower_hex
   \<and> length (policyID Checksum ptype rule)
       = 2 * length (Checksum 0 (Join (ptype # takeWhile (\<lambda>s. s \<noteq> '''') rule) '',''))"
proof -
  have 1: "\<And>r. policyID Checksum ptype r
       = Sprintf_x (Checksum 0 (Join (ptype # takeWhile (\<lambda>s. s \<noteq> '''') r) '',''))"
    by (simp add: policyID_def Let_def policyID_prefix)
  have 2: "policyID Checksum ptype rule = policyID Checksum ptype (strip_trailing rule)"
    unfolding 1 takeWhile_strip_trailing ..
  show ?thesis using 2 Sprintf_x_lower Sprintf_x_length unfolding 1 by blast
qed


section \<open>The write path\<close>

lemma policyArgs_loop_eq:
  "i \<le> 6 \<Longrightarrow> n = 6 - i \<Longrightarrow> length row = 8 \<Longrightarrow>
   policyArgs_loop ptype rule row i =
     (if '''' \<in> set (drop i (take 6 rule)) then Inl (EmptyValuePanic ptype rule)
      else Inr (take (2 + i) row @ map (column rule) [i..<6]))"
proof (induction n arbitrary: i row)
  case 0
  then have "i = 6" by simp
  with 0 show ?case by (simp add: policyArgs_loop.simps [of ptype rule row 6])
next
  case (Suc n)
  then have i: "i < 6" and n: "n = 6 - Suc i" and i': "Suc i \<le> 6" by auto
  have up: "[i..<6] = i # [Suc i..<6]" using i by (simp add: upt_conv_Cons)
  show ?case
  proof (cases "i < length rule")
    case True
    then have d: "drop i (take 6 rule) = rule ! i # drop (Suc i) (take 6 rule)"
      using i by (simp add: drop_nth_Cons)
    show ?thesis
    proof (cases "rule ! i = ''''")
      case True
      with \<open>i < length rule\<close> i d show ?thesis
        by (simp add: policyArgs_loop.simps [of ptype rule row i])
    next
      case False
      let ?row = "row[2 + i := Some (Text (rule ! i) Present)]"
      have "policyArgs_loop ptype rule ?row (Suc i) =
         (if '''' \<in> set (drop (Suc i) (take 6 rule)) then Inl (EmptyValuePanic ptype rule)
          else Inr (take (2 + Suc i) ?row @ map (column rule) [Suc i..<6]))"
        using Suc.IH [OF i' n] Suc.prems(3) by simp
      moreover have "take (2 + Suc i) ?row = take (2 + i) row @ [column rule i]"
        using Suc.prems(3) i \<open>i < length rule\<close>
        by (simp add: take_Suc_conv_app_nth column_def)
      ultimately show ?thesis using False \<open>i < length rule\<close> i d up
        by (auto simp: policyArgs_loop.simps [of ptype rule row i])
    qed
  next
    case False
    then have d: "drop i (take 6 rule) = []" "drop (Suc i) (take 6 rule) = []" by simp_all
    let ?row = "row[2 + i := Some (Text '''' Null)]"
    have "policyArgs_loop ptype rule ?row (Suc i) =
         (if '''' \<in> set (drop (Suc i) (take 6 rule)) then Inl (EmptyValuePanic ptype rule)
          else Inr (take (2 + Suc i) ?row @ map (column rule) [Suc i..<6]))"
      using Suc.IH [OF i' n] Suc.prems(3) by simp
    moreover have "take (2 + Suc i) ?row = take (2 + i) row @ [column rule i]"
      using Suc.prems(3) i False by (simp add: take_Suc_conv_app_nth column_def)
    ultimately show ?thesis using False i d up
      by (auto simp: policyArgs_loop.simps [of ptype rule row i])
  qed
qed

lemma policyArgs_eq:
  "policyArgs Checksum ptype rule =
     (if '''' \<in> set (take 6 rule) then Inl (EmptyValuePanic ptype rule)
      else Inr ([Some (Text (policyID Checksum ptype rule) Present), Some (Text ptype Present)]
                @ map (column rule) [0..<6]))"
proof -
  have r: "replicate 8 None = [None, None, None, None, None, None, None, None :: Text option]"
    by (simp add: numeral_eq_Suc)
  show ?thesis
    unfolding policyArgs_def Let_def
    by (subst policyArgs_loop_eq [where n = 6]) (simp_all add: r)
qed

lemma policyArgs_row_of:
  "policyArgs Checksum ptype rule =
     (if '''' \<in> set (take 6 rule) then Inl (EmptyValuePanic ptype rule)
      else Inr (row_of Checksum ptype rule))"
  by (simp add: policyArgs_eq row_of_def)

lemma Queue_all_eq:
  "Queue_all Checksum ptype rules b =
     (if \<exists>rule\<in>set rules. '''' \<in> set (take 6 rule)
      then Inl (EmptyValuePanic ptype (the (find (\<lambda>rule. '''' \<in> set (take 6 rule)) rules)))
      else Inr (b @ map (row_of Checksum ptype) rules))"
proof (induction rules arbitrary: b)
  case Nil
  then show ?case by simp
next
  case (Cons rule rules)
  show ?case
  proof (cases "'''' \<in> set (take 6 rule)")
    case True
    then show ?thesis by (simp add: policyArgs_row_of)
  next
    case False
    then show ?thesis using Cons.IH [of "b @ [row_of Checksum ptype rule]"]
      by (simp add: policyArgs_row_of)
  qed
qed

lemma AddPolicies_in_transaction:
  "AddPolicies None send Checksum pRules gRules =
     (if \<exists>rule\<in>set pRules. '''' \<in> set (take 6 rule)
      then Inl (EmptyValuePanic ''p'' (the (find (\<lambda>rule. '''' \<in> set (take 6 rule)) pRules)))
      else if \<exists>rule\<in>set gRules. '''' \<in> set (take 6 rule)
      then Inl (EmptyValuePanic ''g'' (the (find (\<lambda>rule. '''' \<in> set (take 6 rule)) gRules)))
      else Inr (send (map (row_of Checksum ''p'') pRules @ map (row_of Checksum ''g'') gRules)))"
  by (simp add: AddPolicies_def Queue_all_eq)

text \<open>
  Claim C4, as the code has it. \<open>AddPolicy\<close> panics if and only if the rule holds an empty
  string among its first six positions, trailing ones included; a rule with none there
  is issued to storage as the row of its id, its type, its values and \<open>NULL\<close> for the
  positions past its length. \<open>AddPolicies\<close> validates inside its transaction: once the
  transaction has begun it panics if and only if one of its rules holds such an empty
  string, and otherwise sends the rows of the \<open>p\<close> rules followed by the rows of the
  \<open>g\<close> rules; when the transaction cannot begin it returns the storage error and does
  not panic, whatever the rules are.
\<close>

theorem write_path_panics_on_any_empty_value:
  "((\<exists>e. AddPolicy exec Checksum ptype rule = Inl e) \<longleftrightarrow> '''' \<in> set (take 6 rule))
   \<and> ('''' \<notin> set (take 6 rule) \<longrightarrow>
        AddPolicy exec Checksum ptype rule = Inr (exec (row_of Checksum ptype rule)))
   \<and> ((\<exists>e. AddPolicies begin send Checksum pRules gRules = Inl e)
         \<longleftrightarrow> begin = None \<and> (\<exists>rule\<in>set (pRules @ gRules). '''' \<in> set (take 6 rule)))
   \<and> (begin = None \<and> (\<forall>rule\<in>set (pRules @ gRules). '''' \<notin> set (take 6 rule)) \<longrightarrow>
        AddPolicies begin send Checksum pRules gRules
          = Inr (send (map (row_of Checksum ''p'') pRules @ map (row_of Checksum ''g'') gRules)))
   \<and> (\<forall>err. begin = Some err \<longrightarrow> AddPolicies begin send Checksum pRules gRules = Inr err)"
proof -
  have 1: "(\<exists>e. AddPolicy exec Checksum ptype rule = Inl e) \<longleftrightarrow> '''' \<in> set (take 6 rule)"
    by (simp add: AddPolicy_def policyArgs_row_of)
  have 2: "'''' \<notin> set (take 6 rule) \<longrightarrow>
        AddPolicy exec Checksum ptype rule = Inr (exec (row_of Checksum ptype rule))"
    by (simp add: AddPolicy_def policyArgs_row_of)
  have 5: "\<forall>err. begin = Some err \<longrightarrow> AddPolicies begin send Checksum pRules gRules = Inr err"
    by (simp add: AddPolicies_def)
  have 3: "(\<exists>e. AddPolicies begin send Checksum pRules gRules = Inl e)
         \<longleftrightarrow> begin = None \<and> (\<exists>rule\<in>set (pRules @ gRules). '''' \<in> set (take 6 rule))"
  proof (cases "begin")
    case None
    then show ?thesis by (auto simp: AddPolicies_in_transaction)
  next
    case (Some err)
    then show ?thesis by (simp add: AddPolicies_def)
  qed
  have 4: "begin = None \<and> (\<forall>rule\<in>set (pRules @ gRules). '''' \<notin> set (take 6 rule)) \<longrightarrow>
        AddPolicies begin send Checksum pRules gRules
          = Inr (send (map (row_of Checksum ''p'') pRules @ map (row_of Checksum ''g'') gRules))"
    by (auto simp: AddPolicies_in_transaction)
  from 1 2 3 4 5 show ?thesis by blast
qed

theorem write_path_panics_on_any_empty_value_witness:
  "AddPolicy (\<lambda>row. row) (\<lambda>seed data. [0x1f, 0xa0]) ''p'' [''alice'', ''uni'']
     = Inr [Some (Text ''1fa0'' Present), Some (Text ''p'' Present),
            Some (Text ''alice'' Present), Some (Text ''uni'' Present),
            Some (Text '''' Null), Some (Text '''' Null), Some (Text '''' Null), Some (Text '''' Null)]
   \<and> AddPolicies None (\<lambda>b. b) (\<lambda>seed data. [0x1f, 0xa0])
        [[''teacher'', ''uni'', ''class_a'', ''teach'']] [[''aaron'', ''teacher'', ''uni'']]
     = Inr [[Some (Text ''1fa0'' Present), Some (Text ''p'' Present),
             Some (Text ''teacher'' Present), Some (Text ''uni'' Present),
             Some (Text ''class_a'' Present), Some (Text ''teach'' Present),
             Some (Text '''' Null), Some (Text '''' Null)],
            [Some (Text ''1fa0'' Present), Some (Text ''g'' Present),
             Some (Text ''aaron'' Present), Some (Text ''teacher'' Present),
             Some (Text ''uni'' Present), Some (Text '''' Null),
             Some (Text '''' Null), Some (Text '''' Null)]]
   \<and> AddPolicies (Some ''closed pool'') (\<lambda>b. ''sent'') (\<lambda>seed data. [0x1f, 0xa0])
        [[''teacher'', '''']] [] = Inr ''closed pool''"
  using write_path_panics_on_any_empty_value [of "\<lambda>row. row" "\<lambda>seed data. [0x1f, 0xa0]" "''p''"
      "[''alice'', ''uni'']" None "\<lambda>b. b"
      "[[''teacher'', ''uni'', ''class_a'', ''teach'']]" "[[''aaron'', ''teacher'', ''uni'']]"]
    write_path_panics_on_any_empty_value [of "\<lambda>row. row" "\<lambda>seed data. [0x1f, 0xa0]" "''p''"
      "[''alice'', ''uni'']" "Some ''closed pool''" "\<lambda>b. ''sent''" "[[''teacher'', '''']]" "[]"]
  by (simp add: row_of_def column_def upt_conv_Cons policyID_def Sprintf_x_def hexbyte_def
      hexdigit_def)

text \<open>
  The claim as stated fails in both directions: a rule whose only empty string is
  trailing panics, and a rule longer than six with an empty string in its interior past
  the sixth position is written (its seventh and eighth values dropped). In a batch the
  same trailing empty string panics once the transaction has begun.
\<close>

theorem trailing_empty_value_panics:
  "AddPolicy (\<lambda>row. row) (\<lambda>seed data. []) ''p'' [''alice'', ''uni'', '''']
     = Inl (EmptyValuePanic ''p'' [''alice'', ''uni'', ''''])
   \<and> \<not> interior_empty [''alice'', ''uni'', '''']
   \<and> AddPolicy (\<lambda>row. row) (\<lambda>seed data. []) ''p''
        [''a'', ''b'', ''c'', ''d'', ''e'', ''f'', '''', ''h'']
     = Inr [Some (Text '''' Present), Some (Text ''p'' Present), Some (Text ''a'' Present),
            Some (Text ''b'' Present), Some (Text ''c'' Present), Some (Text ''d'' Present),
            Some (Text ''e'' Present), Some (Text ''f'' Present)]
   \<and> interior_empty [''a'', ''b'', ''c'', ''d'', ''e'', ''f'', '''', ''h'']
   \<and> AddPolicies None (\<lambda>b. b) (\<lambda>seed data. []) [] [[''alice'', ''uni'', '''']]
     = Inl (EmptyValuePanic ''g'' [''alice'', ''uni'', ''''])"
  by (simp add: AddPolicy_def policyArgs_eq column_def upt_conv_Cons interior_empty_def
      strip_trailing_def policyID_def Sprintf_x_def AddPolicies_in_transaction)

section \<open>Scenario A of the test suite\<close>

lemma scenario_sort:
  "Sort [[''c'', ''e''], [''c'', ''u''], [''b'', ''o''], [''a'', ''f''], [''b'', ''o''], [''a'', ''d'']]
     = Inr [[''a'', ''d''], [''a'', ''f''], [''b'', ''o''], [''b'', ''o''], [''c'', ''e''], [''c'', ''u'']]"
  by (simp add: Sort_def insertionSort_def Less_def Swap_def)

lemma scenario_find_absent:
  "Find [[''a'', ''d''], [''a'', ''f''], [''b'', ''o''], [''b'', ''o''], [''c'', ''e''], [''c'', ''u'']]
     (Some [''a'', ''e'']) = Inr None"
  by (simp add: Find_def search_def Search_def Search_loop.simps slice_to_def)

lemma scenario_find_present:
  "Find [[''a'', ''d''], [''a'', ''f''], [''b'', ''o''], [''b'', ''o''], [''c'', ''e''], [''c'', ''u'']]
     (Some [''c'', ''e'']) = Inr (Some [''c'', ''e''])"
  by (simp add: Find_def search_def Search_def Search_loop.simps slice_to_def)

lemma scenario_remove:
  "Remove [[''a'', ''d''], [''a'', ''f''], [''b'', ''o''], [''b'', ''o''], [''c'', ''e''], [''c'', ''u'']]
     (Some [''b'', ''o''])
     = Inr [[''a'', ''d''], [''a'', ''f''], [''b'', ''o''], [''c'', ''e''], [''c'', ''u'']]"
  by (simp add: Remove_def search_def Search_def Search_loop.simps)

lemma scenario_insert_present:
  "Insert [[''a'', ''d''], [''a'', ''f''], [''b'', ''o''], [''c'', ''e''], [''c'', ''u'']]
     (Some [''a'', ''f''])
     = Inr [[''a'', ''d''], [''a'', ''f''], [''b'', ''o''], [''c'', ''e''], [''c'', ''u'']]"
  by (simp add: Insert_def search_def Search_def Search_loop.simps)

lemma scenario_insert_middle:
  "Insert [[''a'', ''d''], [''a'', ''f''], [''b'', ''o''], [''c'', ''e''], [''c'', ''u'']]
     (Some [''a'', ''e''])
     = Inr [[''a'', ''d''], [''a'', ''e''], [''a'', ''f''], [''b'', ''o''], [''c'', ''e''], [''c'', ''u'']]"
  by (simp add: Insert_def search_def Search_def Search_loop.simps)

lemma scenario_insert_end:
  "Insert [[''a'', ''d''], [''a'', ''e''], [''a'', ''f''], [''b'', ''o''], [''c'', ''e''], [''c'', ''u'']]
     (Some [''c'', ''y''])
     = Inr [[''a'', ''d''], [''a'', ''e''], [''a'', ''f''], [''b'', ''o''], [''c'', ''e''], [''c'', ''u''],
            [''c'', ''y'']]"
  by (simp add: Insert_def search_def Search_def Search_loop.simps)

text \<open>
  Claim C8. On the list \<open>[[c,e],[c,u],[b,o],[a,f],[b,o],[a,d]]\<close> sorting yields
  \<open>[[a,d],[a,f],[b,o],[b,o],[c,e],[c,u]]\<close>, with the duplicate retained; on the sorted
  list \<open>Find([a,e])\<close> returns nil and \<open>Find([c,e])\<close> returns \<open>[c,e]\<close>;
  \<open>Remove([b,o])\<close> removes exactly one of the two occurrences; and then
  \<open>Insert([a,f])\<close>, \<open>Insert([a,e])\<close>, \<open>Insert([c,y])\<close> yield
  \<open>[[a,d],[a,e],[a,f],[b,o],[c,e],[c,u],[c,y]]\<close>. No step panics.
\<close>

theorem scenario_sort_find_remove_insert:
  "Sort [[''c'', ''e''], [''c'', ''u''], [''b'', ''o''], [''a'', ''f''], [''b'', ''o''], [''a'', ''d'']]
     = Inr [[''a'', ''d''], [''a'', ''f''], [''b'', ''o''], [''b'', ''o''], [''c'', ''e''], [''c'', ''u'']]
   \<and> Find [[''a'', ''d''], [''a'', ''f''], [''b'', ''o''], [''b'', ''o''], [''c'', ''e''], [''c'', ''u'']]
       (Some [''a'', ''e'']) = Inr None
   \<and> Find [[''a'', ''d''], [''a'', ''f''], [''b'', ''o''], [''b'', ''o''], [''c'', ''e''], [''c'', ''u'']]
       (Some [''c'', ''e'']) = Inr (Some [''c'', ''e''])
   \<and> Remove [[''a'', ''d''], [''a'', ''f''], [''b'', ''o''], [''b'', ''o''], [''c'', ''e''], [''c'', ''u'']]
       (Some [''b'', ''o''])
     = Inr [[''a'', ''d''], [''a'', ''f''], [''b'', ''o''], [''c'', ''e''], [''c'', ''u'']]
   \<and> andThen (Insert [[''a'', ''d''], [''a'', ''f''], [''b'', ''o''], [''c'', ''e''], [''c'', ''u'']]
                (Some [''a'', ''f'']))
       (\<lambda>p1. andThen (Insert p1 (Some [''a'', ''e''])) (\<lambda>p2. Insert p2 (Some [''c'', ''y''])))
     = Inr [[''a'', ''d''], [''a'', ''e''], [''a'', ''f''], [''b'', ''o''], [''c'', ''e''], [''c'', ''u''],
            [''c'', ''y'']]"
  unfolding scenario_sort scenario_find_absent scenario_find_present scenario_remove
    scenario_insert_present andThen_Inr scenario_insert_middle scenario_insert_end
  by simp

section \<open>The reference matcher\<close>

lemma Filter_wildcard_first:
  assumes "\<forall>row\<in>set p. Suc (length rest) \<le> length row"
  shows "Filter p ('''' # rest) = Inr (filter (matches ('''' # rest)) p)"
proof (cases "p = []")
  case True
  then show ?thesis by (simp add: Filter_def)
next
  case False
  have "rest = [] \<or> (\<forall>row\<in>set p. 1 + length rest \<le> length row)" using assms by simp
  from brute_correct [OF _ this, of "replicate (length p) 0"] obtain ex'
    where ex: "brute 1 rest p (replicate (length p) 0) = Inr ex'"
      "collect p ex' = filter (\<lambda>row. matches rest (drop 1 row)) p"
    by (auto simp: collect_zeros)
  have "filter (\<lambda>row. matches rest (drop 1 row)) p = filter (matches ('''' # rest)) p"
  proof (rule filter_cong [OF refl])
    fix row assume "row \<in> set p"
    with assms have "0 < length row" by auto
    then show "matches rest (drop 1 row) = matches ('''' # rest) row"
      using matches_drop_Cons [of 0 row "''''" rest] by simp
  qed
  with ex False show ?thesis by (simp add: Filter_def)
qed

lemma matches_one:
  "1 \<le> length row \<Longrightarrow> matches [a] row = (a = '''' \<or> row ! 0 = a)"
  by (simp add: matches_iff)

lemma matches_three:
  "3 \<le> length row \<Longrightarrow>
   matches [a, b, c] row = ((a = '''' \<or> row ! 0 = a) \<and> (b = '''' \<or> row ! 1 = b) \<and> (c = '''' \<or> row ! 2 = c))"
  by (auto simp: matches_iff All_less_Suc numeral_2_eq_2)

lemma matches_four:
  "4 \<le> length row \<Longrightarrow>
   matches [a, b, c, d] row = ((a = '''' \<or> row ! 0 = a) \<and> (b = '''' \<or> row ! 1 = b)
      \<and> (c = '''' \<or> row ! 2 = c) \<and> (d = '''' \<or> row ! 3 = d))"
  by (auto simp: matches_iff All_less_Suc numeral_2_eq_2 numeral_3_eq_3)

lemma list_all2_Filter_map:
  assumes "sorted P" and "\<forall>row\<in>set P. 1 \<le> length row"
    and "list_all2 (\<lambda>g res. Filter P (replicate (nat 0) '''' @ [g ! nat 1]) = Inr res) groups results"
  shows "results = map (\<lambda>g. filter (matches [g ! 1]) P) groups"
  using assms(3)
proof (induction groups results rule: list_all2_induct)
  case Nil
  then show ?case by simp
next
  case (Cons g groups res results)
  have "Filter P [g ! 1] = Inr (filter (matches [g ! 1]) P)"
    using assms(1,2) by (intro Filter_sorted) auto
  with Cons show ?case by simp
qed

text \<open>
  The reference matcher on requests without empty strings. For a sorted cache whose base
  tuples have at least four and whose grouping tuples at least three positions, a
  request of four non-empty strings and grouping policies with a non-empty role,
  \<open>Enforce\<close> with \<open>RBACWithDomain\<close> returns, without a panic, exactly the decision of
  \<open>rbac_allows\<close>: the divergence below is confined to empty strings.
\<close>

theorem RBACWithDomain_nonempty:
  assumes sP: "sorted P" and sG: "sorted G"
    and wP: "\<forall>p\<in>set P. 4 \<le> length p" and wG: "\<forall>g\<in>set G. 3 \<le> length g"
    and ne: "sub \<noteq> ''''" "domain \<noteq> ''''" "obj \<noteq> ''''" "act \<noteq> ''''"
    and role: "\<forall>g\<in>set G. g ! 1 \<noteq> ''''"
  shows "Enforce RBACWithDomain \<lparr>m_p = P, m_g = G\<rparr> [sub, domain, obj, act]
           = Inr (rbac_allows P G sub domain obj act)"
proof -
  let ?m = "\<lparr>m_p = P, m_g = G\<rparr>"
  let ?req = "[sub, domain, obj, act]"
  define groups where "groups = filter (matches [sub, '''', domain]) G"
  define policies where "policies = concat (map (\<lambda>g. filter (matches [g ! 1]) P) groups)"
  define found where "found = find (\<lambda>row. take 4 row = ?req) P"
  have l4: "length ?req = 4" by simp
  have "\<forall>row\<in>set P. length ?req \<le> length row" unfolding l4 by (rule wP)
  from Find_sorted [OF sP this]
  have "Find P (Some ?req) = Inr (find (\<lambda>row. take 4 row = ?req) P)" by (simp only: l4)
  then have find: "FindExact ?m (Some ?req) = Inr found"
    by (simp add: FindExact_def found_def)
  have l3: "length [sub, '''', domain] = 3" by simp
  have "\<forall>row\<in>set G. length [sub, '''', domain] \<le> length row" unfolding l3 by (rule wG)
  from Filter_sorted [OF sG this]
  have grp: "FilterGroups ?m [sub, '''', domain] = Inr groups"
    by (simp add: FilterGroups_def groups_def)
  have gset: "set groups = {g \<in> set G. g ! 0 = sub \<and> g ! 2 = domain}"
    unfolding groups_def using wG ne by (auto simp: matches_three)
  have fwg: "FilterWithGroups ?m 0 groups 1 = Inr policies"
  proof (cases "groups = []")
    case True
    then show ?thesis by (simp add: FilterWithGroups_def policies_def)
  next
    case False
    have g1: "\<forall>g\<in>set groups. nat 1 < length g" using wG gset by auto
    have p0: "\<forall>row\<in>set P. nat 0 < length row" using wP by auto
    from FilterWithGroups_loop_concat [of 0 1 groups P "['''']" "''''" "[]", OF _ _ g1 p0]
    obtain results where
      r: "list_all2 (\<lambda>g res. Filter P (replicate (nat 0) '''' @ [g ! nat 1]) = Inr res) groups results"
      and l: "FilterWithGroups_loop P 0 1 groups [''''] [] = Inr ([] @ concat results)" by auto
    have "results = map (\<lambda>g. filter (matches [g ! 1]) P) groups"
      using sP _ r by (rule list_all2_Filter_map) (use wP in auto)
    with l False show ?thesis
      by (simp add: FilterWithGroups_def make_strings_def wrap_int64_def max_string_slice_def
          policies_def)
  qed
  have m1: "matches [g ! 1] p = (p ! 0 = g ! 1)" if "p \<in> set P" "g \<in> set G" for g p
  proof -
    from wP that(1) have "1 \<le> length p" by fastforce
    moreover from role that(2) have "g ! 1 \<noteq> ''''" by blast
    ultimately show ?thesis by (simp only: matches_one) simp
  qed
  have pset: "set policies = {p \<in> set P. \<exists>g\<in>set G. g ! 0 = sub \<and> g ! 2 = domain \<and> p ! 0 = g ! 1}"
  proof -
    have "set policies = {p \<in> set P. \<exists>g\<in>set groups. matches [g ! 1] p}"
      unfolding policies_def by auto
    also have "\<dots> = {p \<in> set P. \<exists>g\<in>{g \<in> set G. g ! 0 = sub \<and> g ! 2 = domain}. matches [g ! 1] p}"
      unfolding gset ..
    also have "\<dots> = {p \<in> set P. \<exists>g\<in>set G. g ! 0 = sub \<and> g ! 2 = domain \<and> p ! 0 = g ! 1}"
      using m1 by blast
    finally show ?thesis .
  qed
  have wpol: "\<forall>row\<in>set policies. Suc (length [domain, obj, act]) \<le> length row"
    unfolding pset using wP by auto
  have last: "Filter policies ['''', domain, obj, act]
      = Inr (filter (matches ['''', domain, obj, act]) policies)"
    using wpol by (rule Filter_wildcard_first)
  have m4: "matches ['''', domain, obj, act] p = (p ! 1 = domain \<and> p ! 2 = obj \<and> p ! 3 = act)"
    if "p \<in> set policies" for p
  proof -
    from that pset wP have "4 \<le> length p" by auto
    then show ?thesis using ne by (simp only: matches_four) simp
  qed
  have via_role: "(filter (matches ['''', domain, obj, act]) policies \<noteq> [])
      = (\<exists>g\<in>set G. \<exists>p\<in>set P. g ! 0 = sub \<and> g ! 2 = domain
            \<and> p ! 0 = g ! 1 \<and> p ! 1 = domain \<and> p ! 2 = obj \<and> p ! 3 = act)"
  proof -
    have "(filter (matches ['''', domain, obj, act]) policies \<noteq> [])
        = (\<exists>p\<in>set policies. matches ['''', domain, obj, act] p)"
      by (simp add: filter_empty_conv)
    also have "\<dots> = (\<exists>p\<in>set policies. p ! 1 = domain \<and> p ! 2 = obj \<and> p ! 3 = act)"
      using m4 by blast
    also have "\<dots> = (\<exists>g\<in>set G. \<exists>p\<in>set P. g ! 0 = sub \<and> g ! 2 = domain
            \<and> p ! 0 = g ! 1 \<and> p ! 1 = domain \<and> p ! 2 = obj \<and> p ! 3 = act)"
      unfolding pset by blast
    finally show ?thesis .
  qed
  have exact: "(found \<noteq> None) = (\<exists>p\<in>set P. take 4 p = ?req)"
    unfolding found_def by (auto simp: find_None_iff)
  have run: "RBACWithDomain ?m ?req =
      (if found \<noteq> None then Inr True
       else if policies = [] then Inr False
       else Inr (filter (matches ['''', domain, obj, act]) policies \<noteq> []))"
    unfolding RBACWithDomain_def by (simp add: find grp fwg last)
  show ?thesis
  proof (cases "found \<noteq> None")
    case True
    with run exact show ?thesis by (simp add: Enforce_def rbac_allows_def)
  next
    case False
    have "RBACWithDomain ?m ?req = Inr (filter (matches ['''', domain, obj, act]) policies \<noteq> [])"
      using run False by (cases "policies = []") simp_all
    with False exact via_role show ?thesis by (simp add: Enforce_def rbac_allows_def)
  qed
qed

theorem RBACWithDomain_nonempty_witness:
  "Enforce RBACWithDomain
     \<lparr>m_p = [[''teacher'', ''uni'', ''class_a'', ''teach'', '''', ''''],
             [''teacher'', ''uni'', ''class_b'', ''teach'', '''', '''']],
      m_g = [[''aaron'', ''teacher'', ''uni'', '''', '''', ''''],
             [''adam'', ''teacher'', ''uni'', '''', '''', '''']]\<rparr>
     [''adam'', ''uni'', ''class_b'', ''teach''] = Inr True
   \<and> Enforce RBACWithDomain
     \<lparr>m_p = [[''teacher'', ''uni'', ''class_a'', ''teach'', '''', ''''],
             [''teacher'', ''uni'', ''class_b'', ''teach'', '''', '''']],
      m_g = [[''aaron'', ''teacher'', ''uni'', '''', '''', ''''],
             [''adam'', ''teacher'', ''uni'', '''', '''', '''']]\<rparr>
     [''alice'', ''uni'', ''class_a'', ''teach''] = Inr False"
  using RBACWithDomain_nonempty [of
      "[[''teacher'', ''uni'', ''class_a'', ''teach'', '''', ''''],
        [''teacher'', ''uni'', ''class_b'', ''teach'', '''', '''']]"
      "[[''aaron'', ''teacher'', ''uni'', '''', '''', ''''],
        [''adam'', ''teacher'', ''uni'', '''', '''', '''']]"
      "''adam''" "''uni''" "''class_b''" "''teach''"]
    RBACWithDomain_nonempty [of
      "[[''teacher'', ''uni'', ''class_a'', ''teach'', '''', ''''],
        [''teacher'', ''uni'', ''class_b'', ''teach'', '''', '''']]"
      "[[''aaron'', ''teacher'', ''uni'', '''', '''', ''''],
        [''adam'', ''teacher'', ''uni'', '''', '''', '''']]"
      "''alice''" "''uni''" "''class_a''" "''teach''"]
  by (simp add: rbac_allows_def)

text \<open>
  Claim C1 states that \<open>Enforce\<close> with \<open>RBACWithDomain\<close> allows a request
  \<open>(sub, dom, obj, act)\<close> exactly when a base policy starts with these four values, or a
  grouping policy \<open>g\<close> with \<open>g[0] = sub\<close> and \<open>g[2] = dom\<close> and a base policy
  \<open>(g[1], dom, obj, act)\<close> exist (\<open>rbac_allows\<close>). The code passes the request values
  to \<open>Filter\<close> as a pattern, where an empty string is the wildcard: with an empty subject
  every grouping policy of the domain matches. On the cache below the request of the
  empty subject is allowed although no policy and no grouping policy names it.
\<close>

theorem empty_subject_is_a_wildcard:
  "Enforce RBACWithDomain
     \<lparr>m_p = [[''teacher'', ''uni'', ''class_a'', ''teach'', '''', '''']],
      m_g = [[''aaron'', ''teacher'', ''uni'', '''', '''', '''']]\<rparr>
     ['''', ''uni'', ''class_a'', ''teach''] = Inr True
   \<and> \<not> rbac_allows [[''teacher'', ''uni'', ''class_a'', ''teach'', '''', '''']]
         [[''aaron'', ''teacher'', ''uni'', '''', '''', '''']] '''' ''uni'' ''class_a'' ''teach''"
  by (simp add: Enforce_def RBACWithDomain_def FindExact_def FilterGroups_def Find_def
      FilterWithGroups_def make_strings_def wrap_int64_def max_string_slice_def idx_int_def
      upd_int_def Filter_def col_ge_def col_gt_def search_def Search_def Search_loop.simps
      slice_to_def rbac_allows_def)


end
